theory Spec2Isabelle
  imports Complex_Main "HOL-Library.Char_ord" "HOL-Library.List_Lexorder"
    "HOL-Library.Product_Lexorder"
begin

section \<open>Time and Python errors\<close>

text \<open>
  A \<^verbatim>\<open>datetime\<close> is an integer number of microseconds; a \<^verbatim>\<open>timedelta\<close> is the
  difference of two of them. \<^verbatim>\<open>total_seconds()\<close> divides the microseconds by \<open>10^6\<close>, so a
  comparison of \<^verbatim>\<open>total_seconds()\<close> with a whole number of seconds \<open>n\<close> is the comparison
  of the microseconds with \<open>seconds n\<close>.
\<close>

definition seconds :: "int \<Rightarrow> int" where
  "seconds n = n * 1000000"

definition minutes :: "int \<Rightarrow> int" where
  "minutes n = n * 60000000"

datatype py_error = ValueError | IndexError

section \<open>smart\_money\_detector.py\<close>

record BuyEvent =
  timestamp :: int
  buyer :: string
  token_mint :: string
  amount :: int
  market :: string

definition TIME_WINDOW_SECONDS :: int where
  "TIME_WINDOW_SECONDS = 30"

definition MIN_GROUP_SIZE :: int where
  "MIN_GROUP_SIZE = 3"

definition MIN_GROUP_SIGHTINGS :: int where
  "MIN_GROUP_SIGHTINGS = 2"

definition HISTORY_MINUTES :: int where
  "HISTORY_MINUTES = 10"

definition LEADER_LOG_COOLDOWN_SECONDS :: int where
  "LEADER_LOG_COOLDOWN_SECONDS = 300"

text \<open>One record per block of \<^verbatim>\<open>logging.warning\<close> lines that \<^verbatim>\<open>analyze_group\<close> prints.\<close>

record LeaderAlert =
  alert_leader :: string
  alert_members :: "string set"
  alert_tokens_seen :: nat
  alert_votes :: int
  alert_total_votes :: int

text \<open>
  The module-level stores. The deque \<^verbatim>\<open>recent_buys\<close> is a list whose head is the oldest
  event; the two \<^verbatim>\<open>defaultdict(list)\<close> keyed by a frozenset are total functions with
  value \<open>[]\<close> at a key never written.
\<close>

record detector_state =
  recent_buys :: "BuyEvent list"
  group_sightings :: "string set \<Rightarrow> string list"
  group_first_buyer :: "string set \<Rightarrow> string list"
  last_logged_leader :: "string \<rightharpoonup> int"
  leader_log :: "LeaderAlert list"

definition init_state :: detector_state where
  "init_state = \<lparr>recent_buys = [], group_sightings = (\<lambda>_. []),
     group_first_buyer = (\<lambda>_. []), last_logged_leader = Map.empty, leader_log = []\<rparr>"

fun prune_old_events :: "int \<Rightarrow> BuyEvent list \<Rightarrow> BuyEvent list" where
  "prune_old_events now [] = []"
| "prune_old_events now (e # es) =
     (if timestamp e < now - minutes HISTORY_MINUTES then prune_old_events now es else e # es)"

text \<open>
  The loop of \<^verbatim>\<open>find_groups\<close> over \<^verbatim>\<open>reversed(recent_buys)\<close>: the list argument is the
  buffer newest first, and the result is \<^verbatim>\<open>matched\<close>.
\<close>

fun scan_matched :: "int \<Rightarrow> BuyEvent \<Rightarrow> BuyEvent list \<Rightarrow> string list" where
  "scan_matched window_start new_event [] = []"
| "scan_matched window_start new_event (e # es) =
     (if timestamp e < window_start then []
      else if token_mint e = token_mint new_event \<and> buyer e \<noteq> buyer new_event
        then buyer e # scan_matched window_start new_event es
      else scan_matched window_start new_event es)"

text \<open>\<^verbatim>\<open>buyer_count[first_buyer] += 1\<close> on a \<^verbatim>\<open>defaultdict(int)\<close>, in insertion order.\<close>

fun increment :: "string \<Rightarrow> (string \<times> int) list \<Rightarrow> (string \<times> int) list" where
  "increment k [] = [(k, 1)]"
| "increment k ((k', n) # kvs) =
     (if k' = k then (k', n + 1) # kvs else (k', n) # increment k kvs)"

fun count_first_buyers :: "string list \<Rightarrow> (string \<times> int) list \<Rightarrow> (string \<times> int) list" where
  "count_first_buyers [] buyer_count = buyer_count"
| "count_first_buyers (b # bs) buyer_count = count_first_buyers bs (increment b buyer_count)"

text \<open>
  \<^verbatim>\<open>max(items, key=lambda x: x[1])\<close>: the running maximum is replaced only by a strictly
  larger key, so the first maximal item wins; on no item at all \<^verbatim>\<open>max\<close> raises.
\<close>

fun max_from :: "string \<times> int \<Rightarrow> (string \<times> int) list \<Rightarrow> string \<times> int" where
  "max_from best [] = best"
| "max_from best (x # xs) = max_from (if snd best < snd x then x else best) xs"

definition max_by_votes :: "(string \<times> int) list \<Rightarrow> py_error + (string \<times> int)" where
  "max_by_votes items = (case items of [] \<Rightarrow> Inl ValueError | x # xs \<Rightarrow> Inr (max_from x xs))"

text \<open>
  \<^verbatim>\<open>analyze_group\<close>; \<open>now\<close> is what \<^verbatim>\<open>datetime.now(timezone.utc)\<close> returns inside it.
  \<^verbatim>\<open>total_votes / 2\<close> is Python's true division.
\<close>

definition analyze_group :: "int \<Rightarrow> string set \<Rightarrow> detector_state \<Rightarrow> py_error + detector_state" where
  "analyze_group now grp s =
     (let tokens_seen = set (group_sightings s grp) in
      if MIN_GROUP_SIGHTINGS \<le> int (card tokens_seen) then
        (let buyer_count = count_first_buyers (group_first_buyer s grp) [] in
         case max_by_votes buyer_count of
           Inl e \<Rightarrow> Inl e
         | Inr (leader, votes) \<Rightarrow>
             (let total_votes = sum_list (map snd buyer_count) in
              if (of_int total_votes :: rat) / 2 < of_int votes then
                (if (case last_logged_leader s leader of
                       None \<Rightarrow> True
                     | Some last_log \<Rightarrow> seconds LEADER_LOG_COOLDOWN_SECONDS < now - last_log)
                 then Inr (s\<lparr>leader_log := leader_log s @
                               [\<lparr>alert_leader = leader, alert_members = grp,
                                 alert_tokens_seen = card tokens_seen,
                                 alert_votes = votes, alert_total_votes = total_votes\<rparr>],
                             last_logged_leader := (last_logged_leader s)(leader \<mapsto> now)\<rparr>)
                 else Inr s)
              else Inr s))
      else Inr s)"

text \<open>\<^verbatim>\<open>find_groups\<close>; \<open>clock\<close> is the time \<^verbatim>\<open>analyze_group\<close> will read.\<close>

definition find_groups :: "int \<Rightarrow> int \<Rightarrow> BuyEvent \<Rightarrow> detector_state \<Rightarrow> py_error + detector_state" where
  "find_groups now clock new_event s =
     (let window_start = now - seconds TIME_WINDOW_SECONDS;
          matched = scan_matched window_start new_event (rev (recent_buys s)) in
      if MIN_GROUP_SIZE - 1 \<le> int (length matched) then
        (let grp = set (matched @ [buyer new_event]) in
         analyze_group clock grp
           (s\<lparr>group_sightings := (group_sightings s)
                  (grp := group_sightings s grp @ [token_mint new_event]),
               group_first_buyer := (group_first_buyer s)
                  (grp := group_first_buyer s grp @ [buyer new_event])\<rparr>))
      else Inr s)"

text \<open>
  The body of the loop \<^verbatim>\<open>for buyer, mint, amount in buys\<close> of \<^verbatim>\<open>run\<close>: the event is
  stamped with \<^verbatim>\<open>now_utc\<close>, appended, the buffer pruned and the groups searched.
\<close>

definition on_buy :: "int \<Rightarrow> int \<Rightarrow> string \<Rightarrow> string \<times> string \<times> int \<Rightarrow> detector_state
    \<Rightarrow> py_error + detector_state" where
  "on_buy now_utc clock mkt b s =
     (case b of (byr, mint, amt) \<Rightarrow>
        (let event = \<lparr>timestamp = now_utc, buyer = byr, token_mint = mint, amount = amt,
                      market = mkt\<rparr> in
         find_groups now_utc clock event
           (s\<lparr>recent_buys := prune_old_events now_utc (recent_buys s @ [event])\<rparr>)))"

text \<open>Buys arriving one after the other, each with its two clock readings; an error stops the run.\<close>

fun on_buys :: "(int \<times> int \<times> string \<times> string \<times> string \<times> int) list \<Rightarrow> detector_state
    \<Rightarrow> py_error + detector_state" where
  "on_buys [] s = Inr s"
| "on_buys ((now_utc, clock, mkt, b) # rest) s =
     (case on_buy now_utc clock mkt b s of Inl e \<Rightarrow> Inl e | Inr s' \<Rightarrow> on_buys rest s')"






subsection \<open>Vocabulary of the claims about attribution\<close>

text \<open>
  The votes of a group are the entries of \<^verbatim>\<open>group_first_buyer[group]\<close>: a wallet's vote count
  is the number of its entries and the total is the length of the list.
\<close>

definition vote_count :: "detector_state \<Rightarrow> string set \<Rightarrow> string \<Rightarrow> int" where
  "vote_count s grp c = int (count_list (group_first_buyer s grp) c)"

definition vote_total :: "detector_state \<Rightarrow> string set \<Rightarrow> int" where
  "vote_total s grp = int (length (group_first_buyer s grp))"

definition sightings_reached :: "detector_state \<Rightarrow> string set \<Rightarrow> bool" where
  "sightings_reached s grp = (MIN_GROUP_SIGHTINGS \<le> int (card (set (group_sightings s grp))))"

text \<open>The test \<^verbatim>\<open>not last_log or (now - last_log).total_seconds() > LEADER_LOG_COOLDOWN_SECONDS\<close>.\<close>

definition cooldown_elapsed :: "int \<Rightarrow> detector_state \<Rightarrow> string \<Rightarrow> bool" where
  "cooldown_elapsed now s w =
     (case last_logged_leader s w of
        None \<Rightarrow> True
      | Some last_log \<Rightarrow> seconds LEADER_LOG_COOLDOWN_SECONDS < now - last_log)"

text \<open>The state after the alert for \<open>w\<close> is logged and the cooldown map stamped.\<close>

definition promote :: "int \<Rightarrow> string set \<Rightarrow> string \<Rightarrow> detector_state \<Rightarrow> detector_state" where
  "promote now grp w s =
     s\<lparr>leader_log := leader_log s @
          [\<lparr>alert_leader = w, alert_members = grp,
            alert_tokens_seen = card (set (group_sightings s grp)),
            alert_votes = vote_count s grp w, alert_total_votes = vote_total s grp\<rparr>],
       last_logged_leader := (last_logged_leader s)(w \<mapsto> now)\<rparr>"

text \<open>
  The wallets the group-formation rule speaks of: the distinct wallets other than the new
  event's, with a buy of the new event's token in the buffer inside
  \<open>[now - window, now]\<close>.
\<close>

definition window_wallets :: "int \<Rightarrow> BuyEvent \<Rightarrow> BuyEvent list \<Rightarrow> string set" where
  "window_wallets now new_event buf =
     set (map buyer (filter (\<lambda>e. token_mint e = token_mint new_event
         \<and> buyer e \<noteq> buyer new_event
         \<and> now - seconds TIME_WINDOW_SECONDS \<le> timestamp e \<and> timestamp e \<le> now) buf))"

text \<open>
  A state for the examples: group \<open>{A, B, C}\<close> seen on three tokens with votes C, A, C, C;
  group \<open>{A, B}\<close> seen on two tokens with one vote each; C last alerted at time 0.
\<close>

definition sample_state :: detector_state where
  "sample_state = \<lparr>recent_buys = [],
     group_sightings = (\<lambda>_. [])
       ({''A'', ''B'', ''C''} := [''MintX'', ''MintY'', ''MintZ'', ''MintX''],
        {''A'', ''B''} := [''MintX'', ''MintY'']),
     group_first_buyer = (\<lambda>_. [])
       ({''A'', ''B'', ''C''} := [''C'', ''A'', ''C'', ''C''],
        {''A'', ''B''} := [''A'', ''B'']),
     last_logged_leader = [''C'' \<mapsto> 0], leader_log = []\<rparr>"

text \<open>The count a tally holds for a key, 0 when the key is absent.\<close>

definition tally :: "(string \<times> int) list \<Rightarrow> string \<Rightarrow> int" where
  "tally kvs k = (case map_of kvs k of None \<Rightarrow> 0 | Some n \<Rightarrow> n)"


section \<open>strategy2.py\<close>

text \<open>\<^verbatim>\<open>BuySellEvent = (timestamp, buyer, mint, amount, is_sell)\<close>, read by index.\<close>

type_synonym BuySellEvent = "int \<times> string \<times> string \<times> int \<times> bool"

definition ev_time :: "BuySellEvent \<Rightarrow> int" where
  "ev_time e = fst e"

definition ev_buyer :: "BuySellEvent \<Rightarrow> string" where
  "ev_buyer e = fst (snd e)"

definition ev_mint :: "BuySellEvent \<Rightarrow> string" where
  "ev_mint e = fst (snd (snd e))"

definition ev_is_sell :: "BuySellEvent \<Rightarrow> bool" where
  "ev_is_sell e = snd (snd (snd (snd e)))"

definition MARKET_CAP_THRESHOLD :: rat where
  "MARKET_CAP_THRESHOLD = 500000"

text \<open>
  What the request to Dexscreener can come back with. \<open>RequestFailed\<close> is any
  \<^verbatim>\<open>requests.RequestException\<close> (connection error, the 5 second timeout); a response carries
  its status code and what \<^verbatim>\<open>resp.json()\<close> makes of the body: \<open>InvalidJson\<close> raises
  \<^verbatim>\<open>ValueError\<close>, \<open>UnexpectedShape\<close> is a document on which \<^verbatim>\<open>.get\<close> or the indexing raises,
  \<open>PairsEmpty\<close> is a missing, null or empty \<^verbatim>\<open>pairs\<close>, and \<open>FirstPairFdv\<close> gives the
  \<^verbatim>\<open>fdv\<close> entry of the first pair.
\<close>

datatype fdv_value = FdvNone | FdvNumber rat | FdvNotNumeric

datatype response_body = InvalidJson | UnexpectedShape | PairsEmpty | FirstPairFdv fdv_value

datatype http_outcome = RequestFailed | Response int response_body

text \<open>\<^verbatim>\<open>fetch_market_cap\<close>: every \<^verbatim>\<open>except\<close> clause and every early \<^verbatim>\<open>return 0\<close> is a branch.\<close>

definition fetch_market_cap :: "(string \<Rightarrow> http_outcome) \<Rightarrow> string \<Rightarrow> rat" where
  "fetch_market_cap world mint =
     (case world mint of
        RequestFailed \<Rightarrow> 0
      | Response status_code body \<Rightarrow>
          if status_code \<noteq> 200 then 0
          else (case body of
                  InvalidJson \<Rightarrow> 0
                | UnexpectedShape \<Rightarrow> 0
                | PairsEmpty \<Rightarrow> 0
                | FirstPairFdv fdv \<Rightarrow>
                    (case fdv of FdvNone \<Rightarrow> 0 | FdvNumber x \<Rightarrow> x | FdvNotNumeric \<Rightarrow> 0)))"

text \<open>The fetch failed or yielded no value: every outcome but a 200 response with a numeric FDV.\<close>

definition fetch_failed :: "http_outcome \<Rightarrow> bool" where
  "fetch_failed outcome =
     (case outcome of
        RequestFailed \<Rightarrow> True
      | Response status_code body \<Rightarrow>
          status_code \<noteq> 200 \<or>
          (case body of FirstPairFdv (FdvNumber x) \<Rightarrow> False | _ \<Rightarrow> True))"

text \<open>One record per \<^verbatim>\<open>[Fast Sell Detected]\<close> block that is logged.\<close>

record FastSellAlert =
  fs_buyer :: string
  fs_mint :: string
  fs_time_diff :: int
  fs_cap :: rat

record trader_state =
  recent_events :: "BuySellEvent list"
  buyer_histories :: "string \<Rightarrow> BuySellEvent list"
  token_market_caps :: "string \<rightharpoonup> rat"
  fast_sell_log :: "FastSellAlert list"

definition init_trader_state :: trader_state where
  "init_trader_state = \<lparr>recent_events = [], buyer_histories = (\<lambda>_. []),
     token_market_caps = Map.empty, fast_sell_log = []\<rparr>"

fun prune_old_events2 :: "int \<Rightarrow> BuySellEvent list \<Rightarrow> BuySellEvent list" where
  "prune_old_events2 now [] = []"
| "prune_old_events2 now (e # es) =
     (if ev_time e < now - minutes HISTORY_MINUTES then prune_old_events2 now es else e # es)"

text \<open>
  The loop \<^verbatim>\<open>for past_event in relevant_events\<close> of \<^verbatim>\<open>analyze_fast_traders\<close>; it ends at
  the \<^verbatim>\<open>break\<close> of the first past buy that the sell follows within the window.
\<close>

fun scan_history :: "(string \<Rightarrow> http_outcome) \<Rightarrow> BuySellEvent \<Rightarrow> BuySellEvent list
    \<Rightarrow> trader_state \<Rightarrow> trader_state" where
  "scan_history world event [] s = s"
| "scan_history world event (past_event # rest) s =
     (if ev_is_sell past_event = False \<and> ev_is_sell event = True then
        (let time_diff = ev_time event - ev_time past_event in
         if 0 < time_diff \<and> time_diff \<le> seconds TIME_WINDOW_SECONDS then
           (let mint = ev_mint event;
                cached = (case token_market_caps s mint of None \<Rightarrow> 0 | Some c \<Rightarrow> c);
                cap = (if cached = 0 then fetch_market_cap world mint else cached);
                s1 = (if cached = 0
                      then s\<lparr>token_market_caps := (token_market_caps s)(mint \<mapsto> cap)\<rparr>
                      else s) in
            if cap \<le> MARKET_CAP_THRESHOLD
            then s1\<lparr>fast_sell_log := fast_sell_log s1 @
                      [\<lparr>fs_buyer = ev_buyer event, fs_mint = mint, fs_time_diff = time_diff,
                        fs_cap = cap\<rparr>]\<rparr>
            else s1)
         else scan_history world event rest s)
      else scan_history world event rest s)"

definition analyze_fast_traders :: "int \<Rightarrow> (string \<Rightarrow> http_outcome) \<Rightarrow> BuySellEvent
    \<Rightarrow> trader_state \<Rightarrow> trader_state" where
  "analyze_fast_traders now world event s =
     (let relevant_events = filter (\<lambda>e. ev_mint e = ev_mint event)
            (buyer_histories s (ev_buyer event)) in
      if length relevant_events < 2 then s
      else scan_history world event relevant_events s)"

text \<open>The body of the loop \<^verbatim>\<open>for buyer, mint, amount, is_sell in buys_sells\<close> of \<^verbatim>\<open>run\<close>.\<close>

definition on_event :: "int \<Rightarrow> (string \<Rightarrow> http_outcome) \<Rightarrow> string \<times> string \<times> int \<times> bool
    \<Rightarrow> trader_state \<Rightarrow> trader_state" where
  "on_event now_utc world b s =
     (case b of (byr, mint, amt, is_sell) \<Rightarrow>
        (let event = (now_utc, byr, mint, amt, is_sell);
             s1 = s\<lparr>recent_events := prune_old_events2 now_utc (recent_events s @ [event])\<rparr>;
             s2 = s1\<lparr>buyer_histories := (buyer_histories s1)
                        (byr := buyer_histories s1 byr @ [event])\<rparr> in
         if is_sell then analyze_fast_traders now_utc world event s2 else s2))"

fun on_events :: "(int \<times> (string \<Rightarrow> http_outcome) \<times> string \<times> string \<times> int \<times> bool) list
    \<Rightarrow> trader_state \<Rightarrow> trader_state" where
  "on_events [] s = s"
| "on_events ((now_utc, world, b) # rest) s = on_events rest (on_event now_utc world b s)"





text \<open>
  The sell of a fast round trip: a buy of the same mint by the same wallet in the
  history, followed by this sell after more than 0 and at most
  \<^verbatim>\<open>TIME_WINDOW_SECONDS\<close> seconds.
\<close>

definition fast_round_trip :: "trader_state \<Rightarrow> int \<Rightarrow> string \<Rightarrow> string \<Rightarrow> bool" where
  "fast_round_trip s now byr mint =
     (\<exists>p \<in> set (buyer_histories s byr).
        ev_mint p = mint \<and> \<not> ev_is_sell p \<and> 0 < now - ev_time p
        \<and> now - ev_time p \<le> seconds TIME_WINDOW_SECONDS)"

text \<open>The market cap the detector works with: the cached one unless absent or 0, else the fetched one.\<close>

definition effective_cap :: "(string \<Rightarrow> http_outcome) \<Rightarrow> trader_state \<Rightarrow> string \<Rightarrow> rat" where
  "effective_cap world s mint =
     (case token_market_caps s mint of
        None \<Rightarrow> fetch_market_cap world mint
      | Some c \<Rightarrow> if c = 0 then fetch_market_cap world mint else c)"

text \<open>The test of the loop body on one past event, for a sell \<open>event\<close>.\<close>

definition fast_pair :: "BuySellEvent \<Rightarrow> BuySellEvent \<Rightarrow> bool" where
  "fast_pair event p = (\<not> ev_is_sell p \<and> 0 < ev_time event - ev_time p
     \<and> ev_time event - ev_time p \<le> seconds TIME_WINDOW_SECONDS)"

text \<open>
  States for the examples: wallet X has bought \<open>MintY\<close> at time 0 and nothing is cached;
  and wallet X has bought, sold after 10 seconds with an alert, and bought again.
\<close>

definition bought_state :: trader_state where
  "bought_state = \<lparr>recent_events = [(0, ''X'', ''MintY'', 100, False)],
     buyer_histories = (\<lambda>_. [])(''X'' := [(0, ''X'', ''MintY'', 100, False)]),
     token_market_caps = Map.empty, fast_sell_log = []\<rparr>"

definition alerted_state :: trader_state where
  "alerted_state = \<lparr>recent_events = [(0, ''X'', ''MintY'', 100, False),
       (seconds 10, ''X'', ''MintY'', 100, True), (seconds 11, ''X'', ''MintY'', 100, False)],
     buyer_histories = (\<lambda>_. [])(''X'' := [(0, ''X'', ''MintY'', 100, False),
       (seconds 10, ''X'', ''MintY'', 100, True), (seconds 11, ''X'', ''MintY'', 100, False)]),
     token_market_caps = [''MintY'' \<mapsto> 1000],
     fast_sell_log = [\<lparr>fs_buyer = ''X'', fs_mint = ''MintY'', fs_time_diff = seconds 10,
                        fs_cap = 1000\<rparr>]\<rparr>"


section \<open>clickhouseDB/killFollowStrategy.py\<close>

text \<open>
  A \<^verbatim>\<open>defaultdict(list)\<close> with string keys, as the list of its items in insertion order;
  \<open>dd_append k v\<close> is \<^verbatim>\<open>d[k].append(v)\<close> and \<open>dd_get\<close> reads a key without creating it.
\<close>

fun dd_append :: "'k \<Rightarrow> 'a \<Rightarrow> ('k \<times> 'a list) list \<Rightarrow> ('k \<times> 'a list) list" where
  "dd_append k v [] = [(k, [v])]"
| "dd_append k v ((k', vs) # rest) =
     (if k' = k then (k', vs @ [v]) # rest else (k', vs) # dd_append k v rest)"

definition dd_get :: "('k \<times> 'a list) list \<Rightarrow> 'k \<Rightarrow> 'a list" where
  "dd_get d k = (case map_of d k of None \<Rightarrow> [] | Some vs \<Rightarrow> vs)"

text \<open>A row of the query: \<^verbatim>\<open>(ts, mint, traderPublicKey, txType, marketCapSol)\<close>.\<close>

type_synonym kf_row = "int \<times> string \<times> string \<times> string \<times> rat"

definition row_ts :: "kf_row \<Rightarrow> int" where
  "row_ts r = fst r"

definition row_mint :: "kf_row \<Rightarrow> string" where
  "row_mint r = fst (snd r)"

definition row_trader :: "kf_row \<Rightarrow> string" where
  "row_trader r = fst (snd (snd r))"

definition row_type :: "kf_row \<Rightarrow> string" where
  "row_type r = fst (snd (snd (snd r)))"

type_synonym kf_trades = "(string \<times> (string \<times> (int \<times> string) list) list) list"

text \<open>\<^verbatim>\<open>trades[trader][mint].append((ts, tx_type))\<close> on the nested \<^verbatim>\<open>defaultdict\<close>.\<close>

fun trades_append :: "string \<Rightarrow> string \<Rightarrow> int \<times> string \<Rightarrow> kf_trades \<Rightarrow> kf_trades" where
  "trades_append trader mint a [] = [(trader, [(mint, [a])])]"
| "trades_append trader mint a ((t, mint_dict) # rest) =
     (if t = trader then (t, dd_append mint a mint_dict) # rest
      else (t, mint_dict) # trades_append trader mint a rest)"

fun build_trades :: "kf_row list \<Rightarrow> kf_trades \<Rightarrow> kf_trades" where
  "build_trades [] trades = trades"
| "build_trades ((ts, mint, trader, tx_type, cap) # rows) trades =
     build_trades rows (trades_append trader mint (ts, tx_type) trades)"

text \<open>
  The loop \<^verbatim>\<open>for j in range(i + 1, len(actions))\<close>: the list is \<^verbatim>\<open>actions[i+1:]\<close>, and the
  loop ends at the \<^verbatim>\<open>break\<close> after the first sell inside the holding time.
\<close>

fun scan_sells :: "int \<Rightarrow> string \<Rightarrow> string \<Rightarrow> int \<Rightarrow> (int \<times> string) list
    \<Rightarrow> (string \<times> string list) list \<Rightarrow> (string \<times> string list) list" where
  "scan_sells max_hold_time_sec trader mint ts_i [] suspicious = suspicious"
| "scan_sells max_hold_time_sec trader mint ts_i ((ts_j, type_j) # rest) suspicious =
     (if type_j \<noteq> ''sell'' then scan_sells max_hold_time_sec trader mint ts_i rest suspicious
      else if 0 < ts_j - ts_i \<and> ts_j - ts_i \<le> seconds max_hold_time_sec
        then dd_append trader mint suspicious
      else scan_sells max_hold_time_sec trader mint ts_i rest suspicious)"

text \<open>The loop \<^verbatim>\<open>for i, (ts_i, type_i) in enumerate(actions)\<close>, on \<^verbatim>\<open>actions[i:]\<close>.\<close>

fun scan_actions :: "int \<Rightarrow> string \<Rightarrow> string \<Rightarrow> (int \<times> string) list
    \<Rightarrow> (string \<times> string list) list \<Rightarrow> (string \<times> string list) list" where
  "scan_actions max_hold_time_sec trader mint [] suspicious = suspicious"
| "scan_actions max_hold_time_sec trader mint ((ts_i, type_i) # rest) suspicious =
     (if type_i \<noteq> ''buy'' then scan_actions max_hold_time_sec trader mint rest suspicious
      else scan_actions max_hold_time_sec trader mint rest
             (scan_sells max_hold_time_sec trader mint ts_i rest suspicious))"

text \<open>The loop over \<^verbatim>\<open>mint_dict.items()\<close>; \<^verbatim>\<open>actions.sort()\<close> orders the pairs by time, then type.\<close>

fun scan_mints :: "int \<Rightarrow> string \<Rightarrow> (string \<times> (int \<times> string) list) list
    \<Rightarrow> (string \<times> string list) list \<Rightarrow> (string \<times> string list) list" where
  "scan_mints max_hold_time_sec trader [] suspicious = suspicious"
| "scan_mints max_hold_time_sec trader ((mint, actions) # rest) suspicious =
     scan_mints max_hold_time_sec trader rest
       (scan_actions max_hold_time_sec trader mint (sort actions) suspicious)"

fun scan_traders :: "int \<Rightarrow> kf_trades \<Rightarrow> (string \<times> string list) list
    \<Rightarrow> (string \<times> string list) list" where
  "scan_traders max_hold_time_sec [] suspicious = suspicious"
| "scan_traders max_hold_time_sec ((trader, mint_dict) # rest) suspicious =
     scan_traders max_hold_time_sec rest (scan_mints max_hold_time_sec trader mint_dict suspicious)"

text \<open>The dictionary \<^verbatim>\<open>suspicious\<close> when the loops are over.\<close>

definition kf_suspicious :: "int \<Rightarrow> kf_row list \<Rightarrow> (string \<times> string list) list" where
  "kf_suspicious max_hold_time_sec rows =
     scan_traders max_hold_time_sec (build_trades rows []) []"

text \<open>
  \<^verbatim>\<open>detect_leader\<close> on the rows the query returned. \<^verbatim>\<open>list(set(tokens))\<close> is a list of the
  distinct tokens in no specified order: the model keeps the set.
\<close>

definition detect_leader :: "int \<Rightarrow> kf_row list \<Rightarrow> (string \<times> string set) list" where
  "detect_leader max_hold_time_sec rows =
     map (\<lambda>(addr, tokens). (addr, set tokens))
       (filter (\<lambda>(addr, tokens). 2 \<le> card (set tokens)) (kf_suspicious max_hold_time_sec rows))"

subsection \<open>Vocabulary of the round-trip claim\<close>

text \<open>
  A buy row is flagged when the rows hold a sell of the same wallet and token that follows
  it after more than 0 and at most \<open>max_hold_time_sec\<close> seconds.
\<close>

definition kf_flagged :: "int \<Rightarrow> kf_row list \<Rightarrow> kf_row \<Rightarrow> bool" where
  "kf_flagged max_hold_time_sec rows b =
     (row_type b = ''buy'' \<and>
      (\<exists>e \<in> set rows. row_trader e = row_trader b \<and> row_mint e = row_mint b
         \<and> row_type e = ''sell'' \<and> 0 < row_ts e - row_ts b
         \<and> row_ts e - row_ts b \<le> seconds max_hold_time_sec))"

text \<open>The token mints on which a wallet exhibits the round trip.\<close>

definition round_trip_mints :: "int \<Rightarrow> kf_row list \<Rightarrow> string \<Rightarrow> string set" where
  "round_trip_mints max_hold_time_sec rows trader =
     set (map row_mint
       (filter (\<lambda>b. row_trader b = trader \<and> kf_flagged max_hold_time_sec rows b) rows))"

text \<open>The buys of a time-sorted action list that a later sell follows within the holding time.\<close>

definition fast_sell_after :: "int \<Rightarrow> int \<Rightarrow> (int \<times> string) list \<Rightarrow> bool" where
  "fast_sell_after max_hold_time_sec ts_i acts =
     (\<exists>a \<in> set acts. snd a = ''sell'' \<and> 0 < fst a - ts_i
        \<and> fst a - ts_i \<le> seconds max_hold_time_sec)"

fun count_flagged :: "int \<Rightarrow> (int \<times> string) list \<Rightarrow> nat" where
  "count_flagged max_hold_time_sec [] = 0"
| "count_flagged max_hold_time_sec (a # rest) =
     (if snd a = ''buy'' \<and> fast_sell_after max_hold_time_sec (fst a) rest then 1 else 0)
       + count_flagged max_hold_time_sec rest"

text \<open>The tokens one wallet's dictionary of actions contributes, one entry per flagged buy.\<close>

definition flagged_mints :: "int \<Rightarrow> (string \<times> (int \<times> string) list) list \<Rightarrow> string list" where
  "flagged_mints mx md = concat (map (\<lambda>(m, acts). replicate (count_flagged mx (sort acts)) m) md)"

text \<open>Every inner dictionary of \<^verbatim>\<open>trades\<close> has each mint once.\<close>

definition inner_distinct :: "kf_trades \<Rightarrow> bool" where
  "inner_distinct tr = (\<forall>t. distinct (map fst (dd_get tr t)))"

text \<open>
  Rows for the examples: X makes one round trip of 20 seconds on \<open>MintY\<close>; Z makes round
  trips on \<open>Mint1\<close> and \<open>Mint2\<close> and holds \<open>Mint3\<close> for 31 seconds.
\<close>

definition sample_rows :: "kf_row list" where
  "sample_rows =
     [(0, ''MintY'', ''X'', ''buy'', 5), (seconds 20, ''MintY'', ''X'', ''sell'', 5),
      (0, ''Mint1'', ''Z'', ''buy'', 5), (seconds 5, ''Mint2'', ''Z'', ''buy'', 5),
      (seconds 30, ''Mint1'', ''Z'', ''sell'', 5), (seconds 31, ''Mint1'', ''Z'', ''sell'', 5),
      (seconds 35, ''Mint2'', ''Z'', ''sell'', 5), (seconds 40, ''Mint3'', ''Z'', ''buy'', 5),
      (seconds 71, ''Mint3'', ''Z'', ''sell'', 5)]"


section \<open>clickhouseDB/sequenceStrategy.py\<close>

text \<open>
  A row of \<^verbatim>\<open>fetch_buy_events\<close> is \<^verbatim>\<open>(ts, mint, traderPublicKey, tokenAmount)\<close>; an event
  kept per mint is \<^verbatim>\<open>(ts, trader, amount)\<close>. Python orders such tuples lexicographically,
  which is the order of the product type.
\<close>

type_synonym seq_row = "int \<times> string \<times> string \<times> int"

type_synonym seq_event = "int \<times> string \<times> int"

definition se_ts :: "seq_event \<Rightarrow> int" where
  "se_ts e = fst e"

definition se_trader :: "seq_event \<Rightarrow> string" where
  "se_trader e = fst (snd e)"

definition se_amount :: "seq_event \<Rightarrow> int" where
  "se_amount e = snd (snd e)"

type_synonym combo_tracker = "(string list \<times> (string \<times> seq_event list) list) list"

fun group_by_mint :: "seq_row list \<Rightarrow> (string \<times> seq_event list) list
    \<Rightarrow> (string \<times> seq_event list) list" where
  "group_by_mint [] mint_clusters = mint_clusters"
| "group_by_mint ((ts, mint, trader, amt) # rows) mint_clusters =
     group_by_mint rows (dd_append mint (ts, trader, amt) mint_clusters)"

text \<open>
  The loop \<^verbatim>\<open>for j in range(i + 1, len(events))\<close> on \<^verbatim>\<open>events[i+1:]\<close>, with the cluster
  built so far; it ends at the \<^verbatim>\<open>break\<close> of the first event past the window.
\<close>

fun grow_cluster :: "int \<Rightarrow> int \<Rightarrow> int \<Rightarrow> seq_event list \<Rightarrow> seq_event list \<Rightarrow> seq_event list" where
  "grow_cluster time_window_sec ts1 a1 [] cluster = cluster"
| "grow_cluster time_window_sec ts1 a1 ((ts2, t2, a2) # rest) cluster =
     (if ts2 - ts1 \<le> seconds time_window_sec then
        (if a1 \<noteq> a2 then grow_cluster time_window_sec ts1 a1 rest (cluster @ [(ts2, t2, a2)])
         else grow_cluster time_window_sec ts1 a1 rest cluster)
      else cluster)"

text \<open>The loop \<^verbatim>\<open>for i in range(len(events))\<close> on \<^verbatim>\<open>events[i:]\<close>.\<close>

fun scan_seeds :: "int \<Rightarrow> string \<Rightarrow> seq_event list \<Rightarrow> combo_tracker \<Rightarrow> combo_tracker" where
  "scan_seeds time_window_sec mint [] combo_tracker = combo_tracker"
| "scan_seeds time_window_sec mint ((ts1, t1, a1) # rest) combo_tracker =
     (let cluster = grow_cluster time_window_sec ts1 a1 rest [(ts1, t1, a1)] in
      scan_seeds time_window_sec mint rest
        (if 3 \<le> length cluster
         then dd_append (sort (map se_trader cluster)) (mint, cluster) combo_tracker
         else combo_tracker))"

fun scan_mint_clusters :: "int \<Rightarrow> (string \<times> seq_event list) list \<Rightarrow> combo_tracker
    \<Rightarrow> combo_tracker" where
  "scan_mint_clusters time_window_sec [] combo_tracker = combo_tracker"
| "scan_mint_clusters time_window_sec ((mint, events) # rest) combo_tracker =
     scan_mint_clusters time_window_sec rest
       (scan_seeds time_window_sec mint (sort events) combo_tracker)"

definition find_clusters :: "seq_row list \<Rightarrow> int \<Rightarrow> combo_tracker" where
  "find_clusters rows time_window_sec =
     scan_mint_clusters time_window_sec (group_by_mint rows []) []"

record evidence =
  mints :: "string list"
  participants :: "string list"
  sequences :: "string list list"

text \<open>\<^verbatim>\<open>[seq[0] for seq in seqs]\<close>: indexing an empty sequence raises.\<close>

definition first_positions :: "string list list \<Rightarrow> py_error + string list" where
  "first_positions seqs = (if [] \<in> set seqs then Inl IndexError else Inr (map hd seqs))"

text \<open>
  \<^verbatim>\<open>Counter(firsts).most_common(1)[0][0]\<close>: the counter tallies in order of first
  occurrence, as the loop of \<open>count_first_buyers\<close> does, and \<^verbatim>\<open>most_common(1)\<close> is the
  first item of largest count; on an empty counter the index \<^verbatim>\<open>[0]\<close> raises.
\<close>

definition most_common_first :: "string list \<Rightarrow> py_error + string" where
  "most_common_first firsts =
     (case max_by_votes (count_first_buyers firsts []) of
        Inl e \<Rightarrow> Inl IndexError
      | Inr (w, n) \<Rightarrow> Inr w)"

text \<open>\<^verbatim>\<open>detect_following_patterns\<close>, as the loop over the items with \<^verbatim>\<open>leader_candidates\<close>.\<close>

fun detect_following_patterns :: "combo_tracker \<Rightarrow> (string \<times> evidence list) list
    \<Rightarrow> py_error + (string \<times> evidence list) list" where
  "detect_following_patterns [] leader_candidates = Inr leader_candidates"
| "detect_following_patterns ((combo, mint_clusters) # rest) leader_candidates =
     (if length mint_clusters < 2 then detect_following_patterns rest leader_candidates
      else
        (let seqs = map (\<lambda>x. map se_trader (snd x)) mint_clusters in
         if 1 < card (set seqs) then
           (case first_positions seqs of
              Inl e \<Rightarrow> Inl e
            | Inr firsts \<Rightarrow>
                (case most_common_first firsts of
                   Inl e \<Rightarrow> Inl e
                 | Inr common_first \<Rightarrow>
                     detect_following_patterns rest
                       (dd_append common_first
                          \<lparr>mints = map fst mint_clusters, participants = combo,
                            sequences = seqs\<rparr> leader_candidates)))
         else detect_following_patterns rest leader_candidates))"

text \<open>\<^verbatim>\<open>SequenceStrategy.detect_leader\<close> on the rows fetched, with the default window.\<close>

definition sequence_detect_leader :: "seq_row list \<Rightarrow> py_error + (string \<times> evidence list) list" where
  "sequence_detect_leader rows = detect_following_patterns (find_clusters rows 10) []"

subsection \<open>Vocabulary of the claims about clusters\<close>

text \<open>The items of a dictionary of lists, one pair per list element.\<close>

definition entries :: "('k \<times> 'a list) list \<Rightarrow> ('k \<times> 'a) list" where
  "entries d = concat (map (\<lambda>(k, vs). map (\<lambda>v. (k, v)) vs) d)"

text \<open>The time-sorted buy events of one token.\<close>

definition sorted_events :: "seq_row list \<Rightarrow> string \<Rightarrow> seq_event list" where
  "sorted_events rows mint =
     sort (map (\<lambda>r. (fst r, fst (snd (snd r)), snd (snd (snd r))))
       (filter (\<lambda>r. fst (snd r) = mint) rows))"

text \<open>
  The cluster the claim describes for the seed at index \<open>i\<close>: the seed, then every later
  event within the window of the seed's timestamp whose amount differs from the seed's.
\<close>

definition cluster_at :: "int \<Rightarrow> seq_event list \<Rightarrow> nat \<Rightarrow> seq_event list" where
  "cluster_at time_window_sec events i =
     events ! i #
       filter (\<lambda>e. se_ts e - se_ts (events ! i) \<le> seconds time_window_sec
                 \<and> se_amount e \<noteq> se_amount (events ! i))
         (drop (Suc i) events)"

text \<open>The clusters as the loops build them, one per seed, before the size test.\<close>

fun clusters_of :: "int \<Rightarrow> seq_event list \<Rightarrow> seq_event list list" where
  "clusters_of time_window_sec [] = []"
| "clusters_of time_window_sec (e # rest) =
     (e # filter (\<lambda>x. se_amount x \<noteq> se_amount e)
            (takeWhile (\<lambda>x. se_ts x - se_ts e \<le> seconds time_window_sec) rest))
       # clusters_of time_window_sec rest"

text \<open>The sequences of a participant key are all identical.\<close>

definition all_identical :: "string list list \<Rightarrow> bool" where
  "all_identical seqs = (\<forall>a \<in> set seqs. \<forall>b \<in> set seqs. a = b)"

text \<open>A most common element of a list: none occurs more often.\<close>

definition is_most_common :: "string list \<Rightarrow> string \<Rightarrow> bool" where
  "is_most_common xs w = (w \<in> set xs \<and> (\<forall>x \<in> set xs. count_list xs x \<le> count_list xs w))"

text \<open>The candidates of the output that carry a given participant key, with their leader.\<close>

definition candidates_for :: "(string \<times> evidence list) list \<Rightarrow> string list
    \<Rightarrow> (string \<times> evidence) list" where
  "candidates_for leader_candidates combo =
     filter (\<lambda>le. participants (snd le) = combo) (entries leader_candidates)"

definition seqs_of :: "(string \<times> seq_event list) list \<Rightarrow> string list list" where
  "seqs_of mint_clusters = map (\<lambda>x. map se_trader (snd x)) mint_clusters"

text \<open>
  Rows for the examples: on token \<open>M\<close> the wallets A, B, C, D buy one second apart and E
  eleven seconds after A; on token \<open>N\<close> B, A and C buy one second apart.
\<close>

definition sample_seq_rows :: "seq_row list" where
  "sample_seq_rows =
     [(seconds 2, ''M'', ''C'', 3), (0, ''M'', ''A'', 1), (seconds 1, ''M'', ''B'', 2),
      (seconds 3, ''M'', ''D'', 1), (seconds 11, ''M'', ''E'', 5),
      (0, ''N'', ''B'', 1), (seconds 1, ''N'', ''A'', 2), (seconds 2, ''N'', ''C'', 3)]"

text \<open>
  What the claim says of one participant key with its token-clusters: one candidate, led
  by a most common first-position wallet and carrying the mints, the key and the
  sequences, when there are at least 2 clusters whose sequences are not all identical;
  no candidate otherwise.
\<close>

definition single_candidate :: "(string \<times> evidence list) list \<Rightarrow> string list
    \<Rightarrow> (string \<times> seq_event list) list \<Rightarrow> bool" where
  "single_candidate leader_candidates combo mint_clusters =
     (if 2 \<le> length mint_clusters \<and> \<not> all_identical (seqs_of mint_clusters)
      then (\<exists>w \<in> set (map hd (seqs_of mint_clusters)).
              is_most_common (map hd (seqs_of mint_clusters)) w
              \<and> candidates_for leader_candidates combo =
                  [(w, \<lparr>mints = map fst mint_clusters, participants = combo,
                         sequences = seqs_of mint_clusters\<rparr>)])
      else candidates_for leader_candidates combo = [])"

text \<open>No token-cluster of the tracker is empty (those of \<^verbatim>\<open>find_clusters\<close> have 3 members).\<close>

definition clusters_nonempty :: "combo_tracker \<Rightarrow> bool" where
  "clusters_nonempty ct = (\<forall>item \<in> set ct. \<forall>x \<in> set (snd item). snd x \<noteq> [])"

text \<open>A tracker for the examples: one key seen on three tokens in three different orders.\<close>

definition sample_tracker :: combo_tracker where
  "sample_tracker =
     [([''A'', ''B'', ''C''],
       [(''M'', [(0, ''A'', 1), (1000000, ''B'', 2), (2000000, ''C'', 3)]),
        (''N'', [(0, ''B'', 1), (1000000, ''A'', 2), (2000000, ''C'', 3)]),
        (''O'', [(0, ''A'', 1), (1000000, ''C'', 2), (2000000, ''B'', 3)])]),
      ([''B'', ''C'', ''D''],
       [(''M'', [(1000000, ''B'', 2), (2000000, ''C'', 3), (3000000, ''D'', 1)])])]"


section \<open>Properties of the co-occurrence detector\<close>


lemmas consts_simps = seconds_def minutes_def TIME_WINDOW_SECONDS_def MIN_GROUP_SIZE_def
  MIN_GROUP_SIGHTINGS_def HISTORY_MINUTES_def LEADER_LOG_COOLDOWN_SECONDS_def

lemma tally_increment:
  "tally (increment k kvs) k' = tally kvs k' + (if k' = k then 1 else 0)"
  by (induction k kvs rule: increment.induct) (auto simp: tally_def)

lemma keys_increment: "fst ` set (increment k kvs) = insert k (fst ` set kvs)"
  by (induction k kvs rule: increment.induct) auto

lemma distinct_increment:
  "distinct (map fst kvs) \<Longrightarrow> distinct (map fst (increment k kvs))"
proof (induction k kvs rule: increment.induct)
  case (1 k)
  then show ?case by simp
next
  case (2 k k' n kvs)
  then show ?case using keys_increment [of k kvs] by auto
qed

lemma sum_increment: "sum_list (map snd (increment k kvs)) = sum_list (map snd kvs) + 1"
  by (induction k kvs rule: increment.induct) auto

lemma tally_count_first_buyers:
  "tally (count_first_buyers vs acc) k = tally acc k + int (count_list vs k)"
  by (induction vs arbitrary: acc) (auto simp: tally_increment)

lemma keys_count_first_buyers:
  "fst ` set (count_first_buyers vs acc) = set vs \<union> fst ` set acc"
  by (induction vs arbitrary: acc) (auto simp: keys_increment)

lemma distinct_count_first_buyers:
  "distinct (map fst acc) \<Longrightarrow> distinct (map fst (count_first_buyers vs acc))"
  by (induction vs arbitrary: acc) (auto simp: distinct_increment)

lemma sum_count_first_buyers:
  "sum_list (map snd (count_first_buyers vs acc)) = sum_list (map snd acc) + int (length vs)"
  by (induction vs arbitrary: acc) (auto simp: sum_increment)

lemma entry_count_first_buyers:
  assumes "(k, n) \<in> set (count_first_buyers vs [])"
  shows "n = int (count_list vs k)"
proof -
  have "distinct (map fst (count_first_buyers vs []))"
    by (simp add: distinct_count_first_buyers)
  with assms have "map_of (count_first_buyers vs []) k = Some n" by simp
  then have "tally (count_first_buyers vs []) k = n" by (simp add: tally_def)
  moreover have "tally (count_first_buyers vs []) k = tally [] k + int (count_list vs k)"
    by (rule tally_count_first_buyers)
  moreover have "tally [] k = 0" by (simp add: tally_def)
  ultimately show ?thesis by simp
qed

lemma max_from_mem: "max_from best xs \<in> set (best # xs)"
  by (induction xs arbitrary: best) auto

lemma max_from_ge: "y \<in> set (best # xs) \<Longrightarrow> snd y \<le> snd (max_from best xs)"
proof (induction xs arbitrary: best y)
  case Nil
  then show ?case by simp
next
  case (Cons x xs)
  have step: "snd best \<le> snd (max_from (if snd best < snd x then x else best) xs)"
    using Cons.IH [of "if snd best < snd x then x else best" "if snd best < snd x then x else best"]
    by (auto split: if_splits)
  from Cons.prems consider "y = best" | "y = x" | "y \<in> set xs" by auto
  then show ?case
  proof cases
    case 1
    then show ?thesis using step by simp
  next
    case 2
    then show ?thesis
      using Cons.IH [of "if snd best < snd x then x else best" "if snd best < snd x then x else best"]
        step by (auto split: if_splits)
  next
    case 3
    then show ?thesis using Cons.IH [of y "if snd best < snd x then x else best"] by simp
  qed
qed

lemma leader_of_votes:
  assumes "vs \<noteq> []"
  shows "\<exists>l. max_by_votes (count_first_buyers vs []) = Inr (l, int (count_list vs l))
           \<and> l \<in> set vs \<and> (\<forall>c. count_list vs c \<le> count_list vs l)"
proof -
  let ?bc = "count_first_buyers vs []"
  from assms have "fst ` set ?bc \<noteq> {}" by (simp add: keys_count_first_buyers)
  then obtain x xs where bc: "?bc = x # xs" by (cases ?bc) auto
  obtain l n where ln: "max_from x xs = (l, n)" by (cases "max_from x xs")
  have mem: "(l, n) \<in> set ?bc" using max_from_mem [of x xs] bc ln by simp
  then have n: "n = int (count_list vs l)" by (rule entry_count_first_buyers)
  have "l \<in> fst ` set ?bc" using mem by force
  then have l: "l \<in> set vs" by (simp add: keys_count_first_buyers)
  have "count_list vs c \<le> count_list vs l" for c
  proof (cases "c \<in> set vs")
    case True
    then have "c \<in> fst ` set ?bc" by (simp add: keys_count_first_buyers)
    then obtain m where cm: "(c, m) \<in> set ?bc" by auto
    then have "m = int (count_list vs c)" by (rule entry_count_first_buyers)
    moreover have "m \<le> n" using max_from_ge [of "(c, m)" x xs] cm bc ln by simp
    ultimately show ?thesis using n by simp
  next
    case False
    then show ?thesis by simp
  qed
  then show ?thesis using bc ln n l by (auto simp: max_by_votes_def)
qed

lemma count_list_two:
  "l \<noteq> c \<Longrightarrow> count_list vs l + count_list vs c \<le> length vs"
  by (induction vs) auto


lemma half_votes: "((of_int t :: rat) / 2 < of_int v) = (t < 2 * v)"
proof -
  have "((of_int t :: rat) / 2 < of_int v) = ((of_int t :: rat) < of_int (2 * v))"
    by (simp add: field_simps)
  also have "\<dots> = (t < 2 * v)" by (rule of_int_less_iff)
  finally show ?thesis .
qed

lemma analyze_group_outcome:
  assumes "sightings_reached s grp" and "group_first_buyer s grp \<noteq> []"
  shows "\<exists>l. l \<in> set (group_first_buyer s grp)
           \<and> (\<forall>c. vote_count s grp c \<le> vote_count s grp l)
           \<and> analyze_group now grp s =
               Inr (if vote_total s grp < 2 * vote_count s grp l \<and> cooldown_elapsed now s l
                    then promote now grp l s else s)"
proof -
  let ?vs = "group_first_buyer s grp"
  from leader_of_votes [OF assms(2)] obtain l where
    mx: "max_by_votes (count_first_buyers ?vs []) = Inr (l, int (count_list ?vs l))"
    and l: "l \<in> set ?vs" and ge: "\<forall>c. count_list ?vs c \<le> count_list ?vs l"
    by blast
  have tot: "sum_list (map snd (count_first_buyers ?vs [])) = int (length ?vs)"
    by (simp add: sum_count_first_buyers)
  have half: "((of_int (int (length ?vs)) :: rat) / 2 < of_int (int (count_list ?vs l)))
      = (int (length ?vs) < 2 * int (count_list ?vs l))"
    by (rule half_votes)
  have "analyze_group now grp s =
      Inr (if vote_total s grp < 2 * vote_count s grp l \<and> cooldown_elapsed now s l
           then promote now grp l s else s)"
    using assms(1) unfolding analyze_group_def sightings_reached_def Let_def mx tot
    by (simp only: half sum.case prod.case vote_total_def vote_count_def cooldown_elapsed_def
        promote_def if_True split: if_splits) (auto split: option.splits)
  then show ?thesis using l ge by (auto simp: vote_count_def)
qed


lemma majority_is_leader:
  assumes "vote_total s grp < 2 * vote_count s grp c"
    and "\<forall>d. vote_count s grp d \<le> vote_count s grp l"
  shows "l = c"
proof (rule ccontr)
  assume "l \<noteq> c"
  then have "vote_count s grp l + vote_count s grp c \<le> vote_total s grp"
    using count_list_two [of l c "group_first_buyer s grp"]
    by (simp add: vote_count_def vote_total_def)
  moreover have "vote_count s grp c \<le> vote_count s grp l" using assms(2) by simp
  ultimately show False using assms(1) by simp
qed

lemma analyze_group_majority:
  assumes "sightings_reached s grp" and "vote_total s grp < 2 * vote_count s grp c"
  shows "analyze_group now grp s = Inr (if cooldown_elapsed now s c then promote now grp c s else s)"
proof -
  have "group_first_buyer s grp \<noteq> []"
    using assms(2) by (auto simp: vote_count_def vote_total_def)
  from analyze_group_outcome [OF assms(1) this, of now] obtain l where
    ge: "\<forall>d. vote_count s grp d \<le> vote_count s grp l"
    and res: "analyze_group now grp s =
               Inr (if vote_total s grp < 2 * vote_count s grp l \<and> cooldown_elapsed now s l
                    then promote now grp l s else s)"
    by blast
  have "l = c" using assms(2) ge by (rule majority_is_leader)
  then show ?thesis using res assms(2) by simp
qed

lemma analyze_group_half:
  assumes "sightings_reached s grp" and "c \<in> set (group_first_buyer s grp)"
    and "2 * vote_count s grp c = vote_total s grp"
  shows "analyze_group now grp s = Inr s"
proof -
  have "group_first_buyer s grp \<noteq> []" using assms(2) by auto
  from analyze_group_outcome [OF assms(1) this, of now] obtain l where
    ge: "\<forall>d. vote_count s grp d \<le> vote_count s grp l"
    and res: "analyze_group now grp s =
               Inr (if vote_total s grp < 2 * vote_count s grp l \<and> cooldown_elapsed now s l
                    then promote now grp l s else s)"
    by blast
  have "\<not> vote_total s grp < 2 * vote_count s grp l"
  proof (cases "l = c")
    case True
    then show ?thesis using assms(3) by simp
  next
    case False
    then have "vote_count s grp l + vote_count s grp c \<le> vote_total s grp"
      using count_list_two [of l c "group_first_buyer s grp"]
      by (simp add: vote_count_def vote_total_def)
    then show ?thesis using assms(3) by simp
  qed
  then show ?thesis using res by simp
qed

text \<open>
  Claim C4. In a group that has reached the minimum number of sightings, a candidate holding
  exactly half of the votes leaves \<^verbatim>\<open>analyze_group\<close> without any alert (the state is
  unchanged), and a candidate holding strictly more than half of the votes is the
  maximum-vote candidate and is promoted whenever its cooldown has elapsed: the alert is
  logged and the cooldown map stamped.
\<close>

theorem voting_threshold:
  assumes "sightings_reached s grp"
  shows "(c \<in> set (group_first_buyer s grp) \<and> 2 * vote_count s grp c = vote_total s grp
            \<longrightarrow> analyze_group now grp s = Inr s)
       \<and> (vote_total s grp < 2 * vote_count s grp c \<and> cooldown_elapsed now s c
            \<longrightarrow> analyze_group now grp s = Inr (promote now grp c s)
                \<and> (\<forall>d. vote_count s grp d \<le> vote_count s grp c))"
proof (intro conjI impI)
  assume "c \<in> set (group_first_buyer s grp) \<and> 2 * vote_count s grp c = vote_total s grp"
  then show "analyze_group now grp s = Inr s"
    using analyze_group_half [OF assms] by blast
next
  assume h: "vote_total s grp < 2 * vote_count s grp c \<and> cooldown_elapsed now s c"
  then show "analyze_group now grp s = Inr (promote now grp c s)"
    using analyze_group_majority [OF assms, of c now] by simp
  show "\<forall>d. vote_count s grp d \<le> vote_count s grp c"
  proof
    fix d
    show "vote_count s grp d \<le> vote_count s grp c"
    proof (cases "d = c")
      case True
      then show ?thesis by simp
    next
      case False
      then have "vote_count s grp d + vote_count s grp c \<le> vote_total s grp"
        using count_list_two [of d c "group_first_buyer s grp"]
        by (simp add: vote_count_def vote_total_def)
      then show ?thesis using h by simp
    qed
  qed
qed

lemma sample_groups_differ: "{''A'', ''B'', ''C''} \<noteq> {''A'', ''B''}"
proof
  assume h: "{''A'', ''B'', ''C''} = {''A'', ''B''}"
  have "''C'' \<in> {''A'', ''B'', ''C''}" by simp
  then have "''C'' \<in> {''A'', ''B''}" unfolding h .
  then show False by simp
qed

lemmas sample_simps = sample_state_def sightings_reached_def vote_count_def vote_total_def
  cooldown_elapsed_def promote_def consts_simps card_insert_if sample_groups_differ

lemma sample_ABC_reached: "sightings_reached sample_state {''A'', ''B'', ''C''}"
  by (simp add: sample_simps)

lemma sample_AB_reached: "sightings_reached sample_state {''A'', ''B''}"
  by (simp add: sample_simps)

lemma sample_C_majority:
  "vote_total sample_state {''A'', ''B'', ''C''}
     < 2 * vote_count sample_state {''A'', ''B'', ''C''} ''C''"
  by (simp add: sample_simps)

theorem voting_threshold_witness:
  "sightings_reached sample_state {''A'', ''B'', ''C''}
   \<and> vote_total sample_state {''A'', ''B'', ''C''}
       < 2 * vote_count sample_state {''A'', ''B'', ''C''} ''C''
   \<and> cooldown_elapsed (seconds 301) sample_state ''C''
   \<and> analyze_group (seconds 301) {''A'', ''B'', ''C''} sample_state =
       Inr (promote (seconds 301) {''A'', ''B'', ''C''} ''C'' sample_state)
   \<and> sightings_reached sample_state {''A'', ''B''}
   \<and> ''A'' \<in> set (group_first_buyer sample_state {''A'', ''B''})
   \<and> 2 * vote_count sample_state {''A'', ''B''} ''A'' = vote_total sample_state {''A'', ''B''}
   \<and> analyze_group (seconds 301) {''A'', ''B''} sample_state = Inr sample_state"
proof -
  have e: "cooldown_elapsed (seconds 301) sample_state ''C''"
    by (simp add: sample_simps)
  have a: "''A'' \<in> set (group_first_buyer sample_state {''A'', ''B''})"
    by (simp add: sample_simps)
  have h: "2 * vote_count sample_state {''A'', ''B''} ''A'' = vote_total sample_state {''A'', ''B''}"
    by (simp add: sample_simps)
  show ?thesis
    using voting_threshold [OF sample_ABC_reached, of "''C''" "seconds 301"]
      voting_threshold [OF sample_AB_reached, of "''A''" "seconds 301"]
      sample_ABC_reached sample_AB_reached sample_C_majority e a h
    by simp
qed

text \<open>
  Claim C10. The events \<open>(t0, A, MintX)\<close>, \<open>(t0 + 5 s, B, MintX)\<close> and
  \<open>(t0 + 8 s, C, MintX)\<close>, processed from the empty state, leave exactly one group,
  \<open>{A, B, C}\<close>, formed when C's event is processed, with the sighting \<open>MintX\<close> and the
  first-buyer vote C; after the first two events no group exists.
\<close>

theorem scenario_ABC:
  "on_buys [(t0, c1, mk, ''A'', ''MintX'', a1),
            (t0 + seconds 5, c2, mk, ''B'', ''MintX'', a2)] init_state =
   Inr \<lparr>recent_buys =
          [\<lparr>timestamp = t0, buyer = ''A'', token_mint = ''MintX'', amount = a1, market = mk\<rparr>,
           \<lparr>timestamp = t0 + seconds 5, buyer = ''B'', token_mint = ''MintX'', amount = a2,
              market = mk\<rparr>],
        group_sightings = (\<lambda>_. []), group_first_buyer = (\<lambda>_. []),
        last_logged_leader = Map.empty, leader_log = []\<rparr>
   \<and> on_buys [(t0, c1, mk, ''A'', ''MintX'', a1),
            (t0 + seconds 5, c2, mk, ''B'', ''MintX'', a2),
            (t0 + seconds 8, c3, mk, ''C'', ''MintX'', a3)] init_state =
   Inr \<lparr>recent_buys =
          [\<lparr>timestamp = t0, buyer = ''A'', token_mint = ''MintX'', amount = a1, market = mk\<rparr>,
           \<lparr>timestamp = t0 + seconds 5, buyer = ''B'', token_mint = ''MintX'', amount = a2,
              market = mk\<rparr>,
           \<lparr>timestamp = t0 + seconds 8, buyer = ''C'', token_mint = ''MintX'', amount = a3,
              market = mk\<rparr>],
        group_sightings = (\<lambda>_. [])({''A'', ''B'', ''C''} := [''MintX'']),
        group_first_buyer = (\<lambda>_. [])({''A'', ''B'', ''C''} := [''C'']),
        last_logged_leader = Map.empty, leader_log = []\<rparr>"
  by (simp add: on_buy_def find_groups_def analyze_group_def init_state_def consts_simps Let_def
      insert_commute)

text \<open>
  What \<^verbatim>\<open>matched\<close> holds: one entry per buffered buy of the new event's token by another
  wallet, down to the first event older than the window; on a time-ordered buffer these
  are all the buys of the token by other wallets inside the window, repetitions included.
\<close>

lemma scan_matched_same_mint:
  "w \<in> set (scan_matched ws new_event buf) \<Longrightarrow>
     \<exists>e \<in> set buf. buyer e = w \<and> token_mint e = token_mint new_event
        \<and> buyer e \<noteq> buyer new_event \<and> ws \<le> timestamp e"
  by (induction buf) (auto split: if_splits)

lemma scan_matched_sorted:
  assumes "sorted (rev (map timestamp buf))"
  shows "scan_matched ws new_event buf =
           map buyer (filter (\<lambda>e. token_mint e = token_mint new_event
             \<and> buyer e \<noteq> buyer new_event \<and> ws \<le> timestamp e) buf)"
  using assms
proof (induction buf)
  case Nil
  then show ?case by simp
next
  case (Cons e buf)
  show ?case
  proof (cases "timestamp e < ws")
    case True
    have "\<forall>x \<in> set buf. timestamp x \<le> timestamp e"
      using Cons.prems by (auto simp: sorted_append)
    with True have "filter (\<lambda>e. token_mint e = token_mint new_event
             \<and> buyer e \<noteq> buyer new_event \<and> ws \<le> timestamp e) buf = []"
      by (auto simp: filter_empty_conv)
    with True show ?thesis by simp
  next
    case False
    moreover have "sorted (rev (map timestamp buf))" using Cons.prems by (simp add: sorted_append)
    ultimately show ?thesis using Cons.IH by simp
  qed
qed

text \<open>
  Claim C1, at the input where the code departs from it. Wallet A buys \<open>MintX\<close> twice and
  wallet B buys it two seconds after the first buy. Only one distinct other wallet bought
  \<open>MintX\<close> inside the window, fewer than \<open>MIN_GROUP_SIZE - 1\<close>, and yet
  \<^verbatim>\<open>find_groups\<close> counts both entries of \<^verbatim>\<open>matched\<close> and records the group \<open>{A, B}\<close> of
  two addresses.
\<close>

theorem find_groups_counts_repeated_buyer:
  "on_buys [(0, 0, ''PumpFun'', ''A'', ''MintX'', 10),
            (seconds 1, seconds 1, ''PumpFun'', ''A'', ''MintX'', 20),
            (seconds 2, seconds 2, ''PumpFun'', ''B'', ''MintX'', 30)] init_state =
   Inr \<lparr>recent_buys =
          [\<lparr>timestamp = 0, buyer = ''A'', token_mint = ''MintX'', amount = 10,
              market = ''PumpFun''\<rparr>,
           \<lparr>timestamp = seconds 1, buyer = ''A'', token_mint = ''MintX'', amount = 20,
              market = ''PumpFun''\<rparr>,
           \<lparr>timestamp = seconds 2, buyer = ''B'', token_mint = ''MintX'', amount = 30,
              market = ''PumpFun''\<rparr>],
        group_sightings = (\<lambda>_. [])({''A'', ''B''} := [''MintX'']),
        group_first_buyer = (\<lambda>_. [])({''A'', ''B''} := [''B'']),
        last_logged_leader = Map.empty, leader_log = []\<rparr>
   \<and> window_wallets (seconds 2)
        \<lparr>timestamp = seconds 2, buyer = ''B'', token_mint = ''MintX'', amount = 30,
          market = ''PumpFun''\<rparr>
        [\<lparr>timestamp = 0, buyer = ''A'', token_mint = ''MintX'', amount = 10,
            market = ''PumpFun''\<rparr>,
         \<lparr>timestamp = seconds 1, buyer = ''A'', token_mint = ''MintX'', amount = 20,
            market = ''PumpFun''\<rparr>,
         \<lparr>timestamp = seconds 2, buyer = ''B'', token_mint = ''MintX'', amount = 30,
            market = ''PumpFun''\<rparr>] = {''A''}
   \<and> int (card {''A''}) < MIN_GROUP_SIZE - 1
   \<and> int (card {''A'', ''B''}) < MIN_GROUP_SIZE"
  by (simp add: on_buy_def find_groups_def analyze_group_def init_state_def consts_simps Let_def
      insert_commute window_wallets_def)

lemma suppressed_within_cooldown:
  assumes "last_logged_leader s w = Some t" and "now - t \<le> seconds LEADER_LOG_COOLDOWN_SECONDS"
    and "sightings_reached s grp" and "vote_total s grp < 2 * vote_count s grp w"
  shows "analyze_group now grp s = Inr s"
  using analyze_group_majority [OF assms(3,4), of now] assms(1,2)
  by (simp add: cooldown_elapsed_def)

text \<open>
  Claim C5, amended at the boundary. For a wallet \<open>w\<close> that qualifies for promotion (its
  group has reached the sightings threshold and \<open>w\<close> holds more than half of the votes),
  \<^verbatim>\<open>analyze_group\<close> suppresses the alert when the wallet's last alert is at most
  \<^verbatim>\<open>LEADER_LOG_COOLDOWN_SECONDS\<close> old (an age of exactly the cooldown is still suppressed),
  and otherwise logs one alert and stamps the cooldown map with the current time. Hence a
  second qualifying promotion of \<open>w\<close> no later than the cooldown after an emitted one,
  in any state whose cooldown map still holds that stamp, emits nothing.
\<close>

theorem cooldown_gate:
  assumes "sightings_reached s grp" and "vote_total s grp < 2 * vote_count s grp w"
  shows "analyze_group now grp s =
           Inr (case last_logged_leader s w of
                  None \<Rightarrow> promote now grp w s
                | Some last_log \<Rightarrow>
                    if now - last_log \<le> seconds LEADER_LOG_COOLDOWN_SECONDS then s
                    else promote now grp w s)
       \<and> leader_log (promote now grp w s) = leader_log s @
            [\<lparr>alert_leader = w, alert_members = grp,
              alert_tokens_seen = card (set (group_sightings s grp)),
              alert_votes = vote_count s grp w, alert_total_votes = vote_total s grp\<rparr>]
       \<and> last_logged_leader (promote now grp w s) w = Some now
       \<and> (\<forall>s2 grp2 now2.
             last_logged_leader s2 w = Some now \<and> sightings_reached s2 grp2
             \<and> vote_total s2 grp2 < 2 * vote_count s2 grp2 w
             \<and> now2 - now \<le> seconds LEADER_LOG_COOLDOWN_SECONDS
             \<longrightarrow> analyze_group now2 grp2 s2 = Inr s2)"
proof (intro conjI allI impI)
  show "analyze_group now grp s =
           Inr (case last_logged_leader s w of
                  None \<Rightarrow> promote now grp w s
                | Some last_log \<Rightarrow>
                    if now - last_log \<le> seconds LEADER_LOG_COOLDOWN_SECONDS then s
                    else promote now grp w s)"
    using analyze_group_majority [OF assms, of now]
    by (auto simp: cooldown_elapsed_def split: option.splits)
next
  show "leader_log (promote now grp w s) = leader_log s @
            [\<lparr>alert_leader = w, alert_members = grp,
              alert_tokens_seen = card (set (group_sightings s grp)),
              alert_votes = vote_count s grp w, alert_total_votes = vote_total s grp\<rparr>]"
    by (simp add: promote_def)
next
  show "last_logged_leader (promote now grp w s) w = Some now"
    by (simp add: promote_def)
next
  fix s2 grp2 now2
  assume "last_logged_leader s2 w = Some now \<and> sightings_reached s2 grp2
             \<and> vote_total s2 grp2 < 2 * vote_count s2 grp2 w
             \<and> now2 - now \<le> seconds LEADER_LOG_COOLDOWN_SECONDS"
  then show "analyze_group now2 grp2 s2 = Inr s2"
    using suppressed_within_cooldown [of s2 w now now2 grp2] by blast
qed

theorem cooldown_gate_witness:
  "sightings_reached sample_state {''A'', ''B'', ''C''}
   \<and> vote_total sample_state {''A'', ''B'', ''C''}
       < 2 * vote_count sample_state {''A'', ''B'', ''C''} ''C''
   \<and> analyze_group (seconds 301) {''A'', ''B'', ''C''} sample_state =
       Inr (promote (seconds 301) {''A'', ''B'', ''C''} ''C'' sample_state)
   \<and> analyze_group (seconds 500) {''A'', ''B'', ''C''}
        (promote (seconds 301) {''A'', ''B'', ''C''} ''C'' sample_state) =
       Inr (promote (seconds 301) {''A'', ''B'', ''C''} ''C'' sample_state)"
proof -
  let ?g = "{''A'', ''B'', ''C''}"
  let ?s1 = "promote (seconds 301) ?g ''C'' sample_state"
  have r1: "sightings_reached ?s1 ?g" by (simp add: sample_simps)
  have m1: "vote_total ?s1 ?g < 2 * vote_count ?s1 ?g ''C''" by (simp add: sample_simps)
  have g1: "last_logged_leader ?s1 ''C'' = Some (seconds 301)" by (simp add: promote_def)
  have d: "seconds 500 - seconds 301 \<le> seconds LEADER_LOG_COOLDOWN_SECONDS"
    by (simp add: consts_simps)
  have l: "last_logged_leader sample_state ''C'' = Some 0" by (simp add: sample_state_def)
  have n: "\<not> seconds 301 - 0 \<le> seconds LEADER_LOG_COOLDOWN_SECONDS" by (simp add: consts_simps)
  from cooldown_gate [OF sample_ABC_reached sample_C_majority, of "seconds 301"]
  have first: "analyze_group (seconds 301) ?g sample_state = Inr ?s1"
    and later: "\<forall>s2 grp2 now2.
             last_logged_leader s2 ''C'' = Some (seconds 301) \<and> sightings_reached s2 grp2
             \<and> vote_total s2 grp2 < 2 * vote_count s2 grp2 ''C''
             \<and> now2 - seconds 301 \<le> seconds LEADER_LOG_COOLDOWN_SECONDS
             \<longrightarrow> analyze_group now2 grp2 s2 = Inr s2"
    using l n by simp_all
  from later g1 r1 m1 d have "analyze_group (seconds 500) ?g ?s1 = Inr ?s1" by blast
  with first sample_ABC_reached sample_C_majority show ?thesis by simp
qed

text \<open>
  The boundary where the claim as stated fails: C was last alerted at time 0 and qualifies
  again exactly 300 seconds later. The last alert is not younger than the cooldown, and
  the alert is suppressed all the same.
\<close>

theorem cooldown_boundary_counterexample:
  "sightings_reached sample_state {''A'', ''B'', ''C''}
   \<and> vote_total sample_state {''A'', ''B'', ''C''}
       < 2 * vote_count sample_state {''A'', ''B'', ''C''} ''C''
   \<and> last_logged_leader sample_state ''C'' = Some 0
   \<and> \<not> (seconds 300 - 0 < seconds LEADER_LOG_COOLDOWN_SECONDS)
   \<and> analyze_group (seconds 300) {''A'', ''B'', ''C''} sample_state = Inr sample_state"
  by (simp add: analyze_group_def max_by_votes_def Let_def sample_simps)













section \<open>Properties of the fast-sell detector\<close>

lemmas ev_simps = ev_time_def ev_buyer_def ev_mint_def ev_is_sell_def

lemma scan_history_miss:
  "\<forall>p \<in> set rel. \<not> fast_pair event p \<Longrightarrow> scan_history world event rel s = s"
  by (induction rel) (auto simp: fast_pair_def Let_def)

lemma scan_history_hit:
  assumes "ev_is_sell event" and "\<exists>p \<in> set rel. fast_pair event p"
  shows "\<exists>d. 0 < d \<and> d \<le> seconds TIME_WINDOW_SECONDS
     \<and> fast_sell_log (scan_history world event rel s) = fast_sell_log s @
         (if effective_cap world s (ev_mint event) \<le> MARKET_CAP_THRESHOLD
          then [\<lparr>fs_buyer = ev_buyer event, fs_mint = ev_mint event, fs_time_diff = d,
                 fs_cap = effective_cap world s (ev_mint event)\<rparr>]
          else [])
     \<and> token_market_caps (scan_history world event rel s) =
         (if token_market_caps s (ev_mint event) = None \<or> token_market_caps s (ev_mint event) = Some 0
          then (token_market_caps s)(ev_mint event \<mapsto> fetch_market_cap world (ev_mint event))
          else token_market_caps s)"
  using assms(2)
proof (induction rel)
  case Nil
  then show ?case by simp
next
  case (Cons p rel)
  show ?case
  proof (cases "fast_pair event p")
    case True
    then show ?thesis using assms(1)
      by (intro exI [of _ "ev_time event - ev_time p"])
        (auto simp: fast_pair_def Let_def effective_cap_def split: option.splits)
  next
    case False
    with Cons.prems have "\<exists>q \<in> set rel. fast_pair event q" by auto
    from Cons.IH [OF this] show ?thesis using False assms(1)
      by (auto simp: fast_pair_def Let_def)
  qed
qed


lemma on_sell_hit:
  assumes "fast_round_trip s now byr mint"
  shows "\<exists>d. 0 < d \<and> d \<le> seconds TIME_WINDOW_SECONDS
     \<and> fast_sell_log (on_event now world (byr, mint, amt, True) s) = fast_sell_log s @
         (if effective_cap world s mint \<le> MARKET_CAP_THRESHOLD
          then [\<lparr>fs_buyer = byr, fs_mint = mint, fs_time_diff = d,
                 fs_cap = effective_cap world s mint\<rparr>]
          else [])
     \<and> token_market_caps (on_event now world (byr, mint, amt, True) s) =
         (if token_market_caps s mint = None \<or> token_market_caps s mint = Some 0
          then (token_market_caps s)(mint \<mapsto> fetch_market_cap world mint)
          else token_market_caps s)"
proof -
  let ?event = "(now, byr, mint, amt, True) :: BuySellEvent"
  let ?s2 = "s\<lparr>recent_events := prune_old_events2 now (recent_events s @ [?event]),
               buyer_histories := (buyer_histories s)(byr := buyer_histories s byr @ [?event])\<rparr>"
  let ?rel = "filter (\<lambda>e. ev_mint e = mint) (buyer_histories s byr @ [?event])"
  from assms obtain p where p: "p \<in> set (buyer_histories s byr)" "ev_mint p = mint"
    and fp: "fast_pair ?event p"
    by (auto simp: fast_round_trip_def fast_pair_def ev_simps)
  from p have "filter (\<lambda>e. ev_mint e = mint) (buyer_histories s byr) \<noteq> []"
    by (auto simp: filter_empty_conv)
  then have len: "\<not> length ?rel < 2" by (simp add: ev_simps Suc_le_eq)
  have "p \<in> set ?rel" using p by simp
  then have hit: "\<exists>q \<in> set ?rel. fast_pair ?event q" using fp by blast
  have sell: "ev_is_sell ?event" by (simp add: ev_simps)
  have run: "on_event now world (byr, mint, amt, True) s = scan_history world ?event ?rel ?s2"
    using len by (simp add: on_event_def analyze_fast_traders_def Let_def ev_simps)
  have cap: "effective_cap world ?s2 (ev_mint ?event) = effective_cap world s mint"
    by (simp add: effective_cap_def ev_simps)
  from scan_history_hit [OF sell hit, of world ?s2] obtain d where
    "0 < d" "d \<le> seconds TIME_WINDOW_SECONDS"
    "fast_sell_log (scan_history world ?event ?rel ?s2) = fast_sell_log ?s2 @
         (if effective_cap world ?s2 (ev_mint ?event) \<le> MARKET_CAP_THRESHOLD
          then [\<lparr>fs_buyer = ev_buyer ?event, fs_mint = ev_mint ?event, fs_time_diff = d,
                 fs_cap = effective_cap world ?s2 (ev_mint ?event)\<rparr>]
          else [])"
    "token_market_caps (scan_history world ?event ?rel ?s2) =
         (if token_market_caps ?s2 (ev_mint ?event) = None
             \<or> token_market_caps ?s2 (ev_mint ?event) = Some 0
          then (token_market_caps ?s2)(ev_mint ?event \<mapsto> fetch_market_cap world (ev_mint ?event))
          else token_market_caps ?s2)"
    by blast
  then show ?thesis unfolding run cap
    by (intro exI [of _ d]) (simp add: ev_simps)
qed

lemma on_sell_miss:
  assumes "\<not> fast_round_trip s now byr mint"
  shows "fast_sell_log (on_event now world (byr, mint, amt, True) s) = fast_sell_log s
     \<and> token_market_caps (on_event now world (byr, mint, amt, True) s) = token_market_caps s"
proof -
  let ?event = "(now, byr, mint, amt, True) :: BuySellEvent"
  let ?s2 = "s\<lparr>recent_events := prune_old_events2 now (recent_events s @ [?event]),
               buyer_histories := (buyer_histories s)(byr := buyer_histories s byr @ [?event])\<rparr>"
  let ?rel = "filter (\<lambda>e. ev_mint e = mint) (buyer_histories s byr @ [?event])"
  have "\<forall>q \<in> set ?rel. \<not> fast_pair ?event q"
    using assms by (auto simp: fast_round_trip_def fast_pair_def ev_simps)
  then have "scan_history world ?event ?rel ?s2 = ?s2" by (rule scan_history_miss)
  then have "on_event now world (byr, mint, amt, True) s = ?s2"
    by (simp add: on_event_def analyze_fast_traders_def Let_def ev_simps)
  then show ?thesis by simp
qed

lemma on_buy_event_log:
  "fast_sell_log (on_event now world (byr, mint, amt, False) s) = fast_sell_log s"
  by (simp add: on_event_def Let_def)

lemma fetch_failed_zero: "fetch_failed (world mint) \<Longrightarrow> fetch_market_cap world mint = 0"
  by (auto simp: fetch_failed_def fetch_market_cap_def
      split: http_outcome.splits response_body.splits fdv_value.splits)

lemmas trader_simps = on_event_def analyze_fast_traders_def init_trader_state_def Let_def
  ev_simps seconds_def minutes_def TIME_WINDOW_SECONDS_def HISTORY_MINUTES_def
  MARKET_CAP_THRESHOLD_def fetch_market_cap_def fetch_failed_def

text \<open>
  Claim C2, amended. Whenever the market-cap fetch fails or yields no value (request
  error or timeout, a status other than 200, an unparsable or unexpected body, no pairs,
  no FDV), \<^verbatim>\<open>fetch_market_cap\<close> returns 0 instead of raising. The detector then works with
  the market cap 0, which passes the test \<^verbatim>\<open>cap <= MARKET_CAP_THRESHOLD\<close>: for a sell that
  completes a fast round trip of a mint with no non-zero cached cap, the alert is emitted
  with cap 0 and 0 is stored in the cache. The filter does not fail closed.
\<close>

theorem market_cap_fails_open:
  assumes "fetch_failed (world mint)"
  shows "fetch_market_cap world mint = 0
       \<and> (fast_round_trip s now byr mint
            \<and> (token_market_caps s mint = None \<or> token_market_caps s mint = Some 0)
          \<longrightarrow> (\<exists>d. 0 < d \<and> d \<le> seconds TIME_WINDOW_SECONDS
                \<and> fast_sell_log (on_event now world (byr, mint, amt, True) s) =
                    fast_sell_log s @
                    [\<lparr>fs_buyer = byr, fs_mint = mint, fs_time_diff = d, fs_cap = 0\<rparr>])
              \<and> token_market_caps (on_event now world (byr, mint, amt, True) s) mint = Some 0)"
proof (intro conjI impI)
  show z: "fetch_market_cap world mint = 0" using assms by (rule fetch_failed_zero)
  assume h: "fast_round_trip s now byr mint
            \<and> (token_market_caps s mint = None \<or> token_market_caps s mint = Some 0)"
  then have cap: "effective_cap world s mint = 0"
    using z by (auto simp: effective_cap_def)
  from h on_sell_hit [of s now byr mint world amt] obtain d where
    d: "0 < d" "d \<le> seconds TIME_WINDOW_SECONDS"
    and lg: "fast_sell_log (on_event now world (byr, mint, amt, True) s) = fast_sell_log s @
         (if effective_cap world s mint \<le> MARKET_CAP_THRESHOLD
          then [\<lparr>fs_buyer = byr, fs_mint = mint, fs_time_diff = d,
                 fs_cap = effective_cap world s mint\<rparr>]
          else [])"
    and cp: "token_market_caps (on_event now world (byr, mint, amt, True) s) =
         (if token_market_caps s mint = None \<or> token_market_caps s mint = Some 0
          then (token_market_caps s)(mint \<mapsto> fetch_market_cap world mint)
          else token_market_caps s)"
    by blast
  show "\<exists>d. 0 < d \<and> d \<le> seconds TIME_WINDOW_SECONDS
                \<and> fast_sell_log (on_event now world (byr, mint, amt, True) s) =
                    fast_sell_log s @
                    [\<lparr>fs_buyer = byr, fs_mint = mint, fs_time_diff = d, fs_cap = 0\<rparr>]"
    using d lg cap by (intro exI [of _ d]) (simp add: MARKET_CAP_THRESHOLD_def)
  show "token_market_caps (on_event now world (byr, mint, amt, True) s) mint = Some 0"
    using cp h z by auto
qed

theorem market_cap_fails_open_witness:
  "fetch_failed ((\<lambda>_. Response 503 InvalidJson) ''MintY'')
   \<and> fast_round_trip bought_state (seconds 20) ''X'' ''MintY''
   \<and> token_market_caps bought_state ''MintY'' = None
   \<and> (\<exists>d. 0 < d \<and> d \<le> seconds TIME_WINDOW_SECONDS
        \<and> fast_sell_log (on_event (seconds 20) (\<lambda>_. Response 503 InvalidJson)
              (''X'', ''MintY'', 100, True) bought_state) =
            fast_sell_log bought_state @
            [\<lparr>fs_buyer = ''X'', fs_mint = ''MintY'', fs_time_diff = d, fs_cap = 0\<rparr>])
   \<and> token_market_caps (on_event (seconds 20) (\<lambda>_. Response 503 InvalidJson)
         (''X'', ''MintY'', 100, True) bought_state) ''MintY'' = Some 0"
proof -
  have f: "fetch_failed ((\<lambda>_. Response 503 InvalidJson) ''MintY'')"
    by (simp add: fetch_failed_def)
  have r: "fast_round_trip bought_state (seconds 20) ''X'' ''MintY''"
    by (simp add: fast_round_trip_def bought_state_def trader_simps)
  have c: "token_market_caps bought_state ''MintY'' = None"
    by (simp add: bought_state_def)
  show ?thesis
    using market_cap_fails_open [OF f, where s = bought_state and now = "seconds 20"
        and byr = "''X''" and amt = 100] f r c
    by simp
qed

text \<open>
  Claim C9, amended. The streaming fast-sell detector has no cooldown: in every state,
  whatever has been logged before, a sell that completes a fast round trip of a mint whose
  market cap is at most the threshold appends exactly one alert for the wallet; a sell
  that does not, and any buy, appends nothing. Repeat alerts are suppressed only by the
  co-occurrence detector's \<^verbatim>\<open>analyze_group\<close>.
\<close>

theorem fast_sell_no_cooldown:
  "(fast_round_trip s now byr mint \<and> effective_cap world s mint \<le> MARKET_CAP_THRESHOLD
      \<longrightarrow> (\<exists>d. 0 < d \<and> d \<le> seconds TIME_WINDOW_SECONDS
            \<and> fast_sell_log (on_event now world (byr, mint, amt, True) s) =
                fast_sell_log s @
                [\<lparr>fs_buyer = byr, fs_mint = mint, fs_time_diff = d,
                  fs_cap = effective_cap world s mint\<rparr>]))
   \<and> (\<not> (fast_round_trip s now byr mint \<and> effective_cap world s mint \<le> MARKET_CAP_THRESHOLD)
      \<longrightarrow> fast_sell_log (on_event now world (byr, mint, amt, True) s) = fast_sell_log s)
   \<and> fast_sell_log (on_event now world (byr, mint, amt, False) s) = fast_sell_log s"
proof (intro conjI impI)
  assume h: "fast_round_trip s now byr mint \<and> effective_cap world s mint \<le> MARKET_CAP_THRESHOLD"
  with on_sell_hit [of s now byr mint world amt]
  show "\<exists>d. 0 < d \<and> d \<le> seconds TIME_WINDOW_SECONDS
            \<and> fast_sell_log (on_event now world (byr, mint, amt, True) s) =
                fast_sell_log s @
                [\<lparr>fs_buyer = byr, fs_mint = mint, fs_time_diff = d,
                  fs_cap = effective_cap world s mint\<rparr>]"
    by auto
next
  assume h: "\<not> (fast_round_trip s now byr mint \<and> effective_cap world s mint \<le> MARKET_CAP_THRESHOLD)"
  show "fast_sell_log (on_event now world (byr, mint, amt, True) s) = fast_sell_log s"
  proof (cases "fast_round_trip s now byr mint")
    case True
    with h on_sell_hit [of s now byr mint world amt] show ?thesis by auto
  next
    case False
    then show ?thesis using on_sell_miss [of s now byr mint world amt] by simp
  qed
next
  show "fast_sell_log (on_event now world (byr, mint, amt, False) s) = fast_sell_log s"
    by (rule on_buy_event_log)
qed

theorem fast_sell_no_cooldown_witness:
  "fast_round_trip alerted_state (seconds 12) ''X'' ''MintY''
   \<and> effective_cap (\<lambda>_. RequestFailed) alerted_state ''MintY'' \<le> MARKET_CAP_THRESHOLD
   \<and> (\<exists>d. 0 < d \<and> d \<le> seconds TIME_WINDOW_SECONDS
        \<and> fast_sell_log (on_event (seconds 12) (\<lambda>_. RequestFailed)
              (''X'', ''MintY'', 100, True) alerted_state) =
            fast_sell_log alerted_state @
            [\<lparr>fs_buyer = ''X'', fs_mint = ''MintY'', fs_time_diff = d,
              fs_cap = effective_cap (\<lambda>_. RequestFailed) alerted_state ''MintY''\<rparr>])"
proof -
  have r: "fast_round_trip alerted_state (seconds 12) ''X'' ''MintY''"
    by (simp add: fast_round_trip_def alerted_state_def trader_simps)
  have c: "effective_cap (\<lambda>_. RequestFailed) alerted_state ''MintY'' \<le> MARKET_CAP_THRESHOLD"
    by (simp add: effective_cap_def alerted_state_def trader_simps)
  show ?thesis
    using fast_sell_no_cooldown [of alerted_state "seconds 12" "''X''" "''MintY''"
        "\<lambda>_. RequestFailed" 100] r c
    by simp
qed

text \<open>
  The request fails on the sell that ends a 20 second round trip, and the alert is logged.
\<close>

theorem market_cap_fails_open_counterexample:
  "fetch_failed ((\<lambda>_. RequestFailed) ''MintY'')
   \<and> fast_sell_log
       (on_events [(0, (\<lambda>_. RequestFailed), ''X'', ''MintY'', 100, False),
                   (seconds 20, (\<lambda>_. RequestFailed), ''X'', ''MintY'', 100, True)]
          init_trader_state) =
     [\<lparr>fs_buyer = ''X'', fs_mint = ''MintY'', fs_time_diff = seconds 20, fs_cap = 0\<rparr>]"
  by (simp add: trader_simps)

text \<open>
  Two round trips of the same wallet two seconds apart: both sells are alerted.
\<close>

theorem fast_sell_repeat_counterexample:
  "fast_sell_log
     (on_events [(0, (\<lambda>_. Response 200 (FirstPairFdv (FdvNumber 1000))), ''X'', ''MintY'', 100, False),
                 (seconds 10, (\<lambda>_. Response 200 (FirstPairFdv (FdvNumber 1000))), ''X'', ''MintY'', 100, True),
                 (seconds 11, (\<lambda>_. Response 200 (FirstPairFdv (FdvNumber 1000))), ''X'', ''MintY'', 100, False),
                 (seconds 12, (\<lambda>_. Response 200 (FirstPairFdv (FdvNumber 1000))), ''X'', ''MintY'', 100, True)]
        init_trader_state) =
   [\<lparr>fs_buyer = ''X'', fs_mint = ''MintY'', fs_time_diff = seconds 10, fs_cap = 1000\<rparr>,
    \<lparr>fs_buyer = ''X'', fs_mint = ''MintY'', fs_time_diff = seconds 12, fs_cap = 1000\<rparr>]"
  by (simp add: trader_simps)


section \<open>Properties of the round-trip detector\<close>


lemma dd_get_Nil: "dd_get [] k = []"
  by (simp add: dd_get_def)

lemma dd_get_dd_append:
  "dd_get (dd_append k v d) k' = (if k' = k then dd_get d k @ [v] else dd_get d k')"
  by (induction k v d rule: dd_append.induct) (auto simp: dd_get_def)

lemma keys_dd_append: "fst ` set (dd_append k v d) = insert k (fst ` set d)"
  by (induction k v d rule: dd_append.induct) auto

lemma distinct_dd_append:
  "distinct (map fst d) \<Longrightarrow> distinct (map fst (dd_append k v d))"
proof (induction k v d rule: dd_append.induct)
  case (1 k v)
  then show ?case by simp
next
  case (2 k v k' vs rest)
  then show ?case using keys_dd_append [of k v rest] by auto
qed

lemma fast_sell_after_Nil: "fast_sell_after mx ts [] = False"
  by (simp add: fast_sell_after_def)

lemma fast_sell_after_Cons:
  "fast_sell_after mx ts ((ts_j, ty) # rest) =
     ((ty = ''sell'' \<and> 0 < ts_j - ts \<and> ts_j - ts \<le> seconds mx) \<or> fast_sell_after mx ts rest)"
  by (simp add: fast_sell_after_def)

lemma scan_sells_eq:
  "scan_sells mx t m ts rest susp =
     (if fast_sell_after mx ts rest then dd_append t m susp else susp)"
proof (induction rest)
  case Nil
  then show ?case by (simp add: fast_sell_after_Nil)
next
  case (Cons a rest)
  obtain ts_j ty where a: "a = (ts_j, ty)" by (cases a)
  show ?case unfolding a by (simp only: scan_sells.simps fast_sell_after_Cons Cons.IH) auto
qed

lemma distinct_scan_actions:
  "distinct (map fst susp) \<Longrightarrow> distinct (map fst (scan_actions mx t m acts susp))"
  by (induction acts arbitrary: susp) (auto simp: scan_sells_eq distinct_dd_append)

lemma dd_get_scan_actions:
  "dd_get (scan_actions mx t m acts susp) t' =
     dd_get susp t' @ (if t' = t then replicate (count_flagged mx acts) m else [])"
proof (induction acts arbitrary: susp)
  case Nil
  then show ?case by simp
next
  case (Cons a acts)
  obtain ts ty where a: "a = (ts, ty)" by (cases a)
  show ?case
  proof (cases "ty = ''buy'' \<and> fast_sell_after mx ts acts")
    case True
    then show ?thesis
      by (simp add: a Cons.IH scan_sells_eq dd_get_dd_append replicate_append_same)
  next
    case False
    then show ?thesis
      by (cases "ty = ''buy''") (simp_all add: a Cons.IH scan_sells_eq)
  qed
qed

lemma distinct_scan_mints:
  "distinct (map fst susp) \<Longrightarrow> distinct (map fst (scan_mints mx t md susp))"
  by (induction md arbitrary: susp) (auto simp: distinct_scan_actions)

lemma dd_get_scan_mints:
  "dd_get (scan_mints mx t md susp) t' =
     dd_get susp t' @ (if t' = t then flagged_mints mx md else [])"
  by (induction md arbitrary: susp) (auto simp: dd_get_scan_actions flagged_mints_def)

lemma distinct_scan_traders:
  "distinct (map fst susp) \<Longrightarrow> distinct (map fst (scan_traders mx trades susp))"
  by (induction trades arbitrary: susp) (auto simp: distinct_scan_mints)

lemma dd_get_scan_traders:
  "dd_get (scan_traders mx trades susp) t' =
     dd_get susp t' @ concat (map (\<lambda>(t, md). if t = t' then flagged_mints mx md else []) trades)"
  by (induction trades arbitrary: susp) (auto simp: dd_get_scan_mints)

lemma concat_select:
  assumes "distinct (map fst d)"
  shows "concat (map (\<lambda>(k, v). if k = k0 then f v else []) d) =
           (case map_of d k0 of None \<Rightarrow> [] | Some v \<Rightarrow> f v)"
  using assms
proof (induction d)
  case Nil
  then show ?case by simp
next
  case (Cons kv d)
  obtain k v where kv: "kv = (k, v)" by (cases kv)
  show ?case
  proof (cases "k = k0")
    case True
    then have "map_of d k0 = None" using Cons.prems kv by (auto simp: map_of_eq_None_iff)
    with Cons True kv show ?thesis by simp
  next
    case False
    with Cons kv show ?thesis by simp
  qed
qed

lemma count_list_replicate: "count_list (replicate n x) y = (if x = y then n else 0)"
  by (induction n) auto

lemma count_flagged_mints:
  assumes "distinct (map fst md)"
  shows "count_list (flagged_mints mx md) m = count_flagged mx (sort (dd_get md m))"
  using assms
proof (induction md)
  case Nil
  then show ?case by (simp add: flagged_mints_def dd_get_def)
next
  case (Cons kv md)
  obtain k v where kv: "kv = (k, v)" by (cases kv)
  have ih: "count_list (flagged_mints mx md) m = count_flagged mx (sort (dd_get md m))"
    using Cons by simp
  have split: "flagged_mints mx (kv # md) = replicate (count_flagged mx (sort v)) k @ flagged_mints mx md"
    by (simp add: flagged_mints_def kv)
  show ?case
  proof (cases "k = m")
    case True
    then have "map_of md m = None" using Cons.prems kv by (auto simp: map_of_eq_None_iff)
    then have "dd_get md m = []" by (simp add: dd_get_def)
    then have "count_list (flagged_mints mx md) m = 0" using ih by simp
    then show ?thesis using True kv split by (simp add: dd_get_def count_list_replicate)
  next
    case False
    then have "count_list (replicate (count_flagged mx (sort v)) k) m = 0"
      by (simp add: count_list_replicate)
    then show ?thesis using False kv split ih by (simp add: dd_get_def)
  qed
qed


lemma dd_get_trades_append:
  "dd_get (trades_append t m a tr) t' =
     (if t' = t then dd_append m a (dd_get tr t) else dd_get tr t')"
  by (induction t m a tr rule: trades_append.induct) (auto simp: dd_get_def)

lemma keys_trades_append: "fst ` set (trades_append t m a tr) = insert t (fst ` set tr)"
  by (induction t m a tr rule: trades_append.induct) auto

lemma distinct_trades_append:
  "distinct (map fst tr) \<Longrightarrow> distinct (map fst (trades_append t m a tr))"
proof (induction t m a tr rule: trades_append.induct)
  case (1 trader mint a)
  then show ?case by simp
next
  case (2 trader mint a t mint_dict rest)
  then show ?case using keys_trades_append [of trader mint a rest] by auto
qed

lemma inner_distinct_trades_append:
  "inner_distinct tr \<Longrightarrow> inner_distinct (trades_append t m a tr)"
  by (simp add: inner_distinct_def dd_get_trades_append distinct_dd_append)

lemma build_trades_distinct:
  "distinct (map fst tr) \<Longrightarrow> distinct (map fst (build_trades rows tr))"
  by (induction rows tr rule: build_trades.induct) (auto simp: distinct_trades_append)

lemma build_trades_inner_distinct:
  "inner_distinct tr \<Longrightarrow> inner_distinct (build_trades rows tr)"
  by (induction rows tr rule: build_trades.induct) (auto simp: inner_distinct_trades_append)

lemmas row_simps = row_ts_def row_mint_def row_trader_def row_type_def

lemma build_trades_actions:
  "dd_get (dd_get (build_trades rows tr) t) m =
     dd_get (dd_get tr t) m @
       map (\<lambda>r. (row_ts r, row_type r)) (filter (\<lambda>r. row_trader r = t \<and> row_mint r = m) rows)"
  by (induction rows tr rule: build_trades.induct)
    (auto simp: dd_get_trades_append dd_get_dd_append row_simps)

lemma fast_sell_after_head:
  "fast_sell_after mx (fst a) (a # rest) = fast_sell_after mx (fst a) rest"
  by (simp add: fast_sell_after_def)

lemma fast_sell_after_earlier:
  assumes "fst a \<le> ts"
  shows "fast_sell_after mx ts (a # rest) = fast_sell_after mx ts rest"
  using assms by (auto simp: fast_sell_after_def)

lemma count_flagged_sorted:
  fixes acts :: "(int \<times> string) list"
  assumes "sorted acts"
  shows "count_flagged mx acts =
           length (filter (\<lambda>a. snd a = ''buy'' \<and> fast_sell_after mx (fst a) acts) acts)"
  using assms
proof (induction acts)
  case Nil
  then show ?case by simp
next
  case (Cons a acts)
  have le: "\<forall>b \<in> set acts. fst a \<le> fst b"
  proof
    fix b assume "b \<in> set acts"
    with Cons.prems have "a \<le> b" by simp
    then show "fst a \<le> fst b" by (auto simp: less_eq_prod_def)
  qed
  have "filter (\<lambda>b. snd b = ''buy'' \<and> fast_sell_after mx (fst b) (a # acts)) acts =
        filter (\<lambda>b. snd b = ''buy'' \<and> fast_sell_after mx (fst b) acts) acts"
    using le by (intro filter_cong) (auto simp: fast_sell_after_earlier)
  moreover have "count_flagged mx acts =
      length (filter (\<lambda>b. snd b = ''buy'' \<and> fast_sell_after mx (fst b) acts) acts)"
    using Cons by simp
  ultimately show ?case by (simp add: fast_sell_after_head)
qed

lemma count_flagged_sort:
  "count_flagged mx (sort acts) =
     length (filter (\<lambda>a. snd a = ''buy'' \<and> fast_sell_after mx (fst a) acts) acts)"
proof -
  have same: "fast_sell_after mx ts (sort acts) = fast_sell_after mx ts acts" for ts
    by (simp add: fast_sell_after_def)
  have "count_flagged mx (sort acts) =
      length (filter (\<lambda>a. snd a = ''buy'' \<and> fast_sell_after mx (fst a) (sort acts)) (sort acts))"
    by (rule count_flagged_sorted) simp
  also have "\<dots> = length (sort (filter (\<lambda>a. snd a = ''buy'' \<and> fast_sell_after mx (fst a) acts) acts))"
    by (simp add: same filter_sort)
  finally show ?thesis by simp
qed

lemma fast_sell_after_rows:
  "fast_sell_after mx (row_ts b)
     (map (\<lambda>r. (row_ts r, row_type r))
        (filter (\<lambda>r. row_trader r = row_trader b \<and> row_mint r = row_mint b) rows)) =
   (\<exists>e \<in> set rows. row_trader e = row_trader b \<and> row_mint e = row_mint b
         \<and> row_type e = ''sell'' \<and> 0 < row_ts e - row_ts b
         \<and> row_ts e - row_ts b \<le> seconds mx)"
proof -
  let ?P = "\<lambda>r. row_trader r = row_trader b \<and> row_mint r = row_mint b"
  let ?Q = "\<lambda>e. row_type e = ''sell'' \<and> 0 < row_ts e - row_ts b
         \<and> row_ts e - row_ts b \<le> seconds mx"
  have "fast_sell_after mx (row_ts b) (map (\<lambda>r. (row_ts r, row_type r)) (filter ?P rows)) =
      (\<exists>e \<in> set (filter ?P rows). ?Q e)"
    unfolding fast_sell_after_def set_map bex_simps(7) fst_conv snd_conv ..
  also have "\<dots> = (\<exists>e \<in> set rows. ?P e \<and> ?Q e)"
    unfolding set_filter by blast
  finally show ?thesis by (simp only: conj_assoc)
qed

lemma suspicious_count:
  "count_list (dd_get (kf_suspicious mx rows) t) m =
     length (filter (\<lambda>b. row_trader b = t \<and> row_mint b = m \<and> kf_flagged mx rows b) rows)"
proof -
  let ?tr = "build_trades rows []"
  let ?acts = "map (\<lambda>r. (row_ts r, row_type r))
                 (filter (\<lambda>r. row_trader r = t \<and> row_mint r = m) rows)"
  have d: "distinct (map fst ?tr)" by (simp add: build_trades_distinct)
  have "inner_distinct []" by (simp add: inner_distinct_def dd_get_def)
  then have "inner_distinct ?tr" by (rule build_trades_inner_distinct)
  then have di: "distinct (map fst (dd_get ?tr t))" by (simp add: inner_distinct_def)
  have "dd_get (dd_get [] t) m = ([] :: (int \<times> string) list)" by (simp add: dd_get_def)
  then have acts: "dd_get (dd_get ?tr t) m = ?acts"
    by (simp only: build_trades_actions) simp
  have "dd_get (kf_suspicious mx rows) t =
      concat (map (\<lambda>(t', md). if t' = t then flagged_mints mx md else []) ?tr)"
    by (simp add: kf_suspicious_def dd_get_scan_traders dd_get_Nil)
  also have "\<dots> = (case map_of ?tr t of None \<Rightarrow> [] | Some md \<Rightarrow> flagged_mints mx md)"
    using d by (rule concat_select)
  also have "\<dots> = flagged_mints mx (dd_get ?tr t)"
    by (simp add: dd_get_def flagged_mints_def split: option.splits)
  finally have "count_list (dd_get (kf_suspicious mx rows) t) m = count_flagged mx (sort ?acts)"
    using count_flagged_mints [OF di, of mx m] acts by simp
  also have "\<dots> = length (filter (\<lambda>a. snd a = ''buy'' \<and> fast_sell_after mx (fst a) ?acts) ?acts)"
    by (rule count_flagged_sort)
  also have "\<dots> = length (filter (\<lambda>b. row_trader b = t \<and> row_mint b = m \<and> kf_flagged mx rows b) rows)"
  proof -
    have "filter (\<lambda>a. snd a = ''buy'' \<and> fast_sell_after mx (fst a) ?acts) ?acts =
        map (\<lambda>r. (row_ts r, row_type r))
          (filter (\<lambda>b. row_type b = ''buy'' \<and> fast_sell_after mx (row_ts b) ?acts)
             (filter (\<lambda>r. row_trader r = t \<and> row_mint r = m) rows))"
      by (simp add: filter_map comp_def)
    also have "(filter (\<lambda>b. row_type b = ''buy'' \<and> fast_sell_after mx (row_ts b) ?acts)
             (filter (\<lambda>r. row_trader r = t \<and> row_mint r = m) rows)) =
           filter (\<lambda>b. row_trader b = t \<and> row_mint b = m \<and> kf_flagged mx rows b) rows"
      unfolding filter_filter
    proof (rule filter_cong)
      fix b assume "b \<in> set rows"
      show "((row_trader b = t \<and> row_mint b = m)
              \<and> row_type b = ''buy'' \<and> fast_sell_after mx (row_ts b) ?acts) =
            (row_trader b = t \<and> row_mint b = m \<and> kf_flagged mx rows b)"
      proof (cases "row_trader b = t \<and> row_mint b = m")
        case True
        then have "fast_sell_after mx (row_ts b) ?acts =
            (\<exists>e \<in> set rows. row_trader e = row_trader b \<and> row_mint e = row_mint b
               \<and> row_type e = ''sell'' \<and> 0 < row_ts e - row_ts b
               \<and> row_ts e - row_ts b \<le> seconds mx)"
          using fast_sell_after_rows [of mx b rows] by simp
        then show ?thesis using True by (simp add: kf_flagged_def)
      next
        case False
        then show ?thesis by blast
      qed
    qed simp
    finally show ?thesis by simp
  qed
  finally show ?thesis .
qed


lemma suspicious_distinct: "distinct (map fst (kf_suspicious mx rows))"
  by (simp add: kf_suspicious_def distinct_scan_traders)

lemma suspicious_set: "set (dd_get (kf_suspicious mx rows) t) = round_trip_mints mx rows t"
proof (rule set_eqI)
  fix m
  have "(m \<in> set (dd_get (kf_suspicious mx rows) t)) =
      (count_list (dd_get (kf_suspicious mx rows) t) m \<noteq> 0)"
    by (simp add: count_list_0_iff)
  also have "\<dots> = (filter (\<lambda>b. row_trader b = t \<and> row_mint b = m \<and> kf_flagged mx rows b) rows \<noteq> [])"
    by (simp add: suspicious_count)
  also have "\<dots> = (m \<in> round_trip_mints mx rows t)"
    unfolding round_trip_mints_def filter_empty_conv set_map set_filter by blast
  finally show "(m \<in> set (dd_get (kf_suspicious mx rows) t)) = (m \<in> round_trip_mints mx rows t)" .
qed

lemma map_of_select:
  assumes "distinct (map fst d)"
  shows "map_of (map (\<lambda>(k, v). (k, f v)) (filter (\<lambda>(k, v). Q v) d)) k0 =
           (case map_of d k0 of None \<Rightarrow> None | Some v \<Rightarrow> if Q v then Some (f v) else None)"
  using assms
proof (induction d)
  case Nil
  then show ?case by simp
next
  case (Cons kv d)
  obtain k v where kv: "kv = (k, v)" by (cases kv)
  show ?case
  proof (cases "k = k0")
    case True
    then have "map_of d k0 = None" using Cons.prems kv by (auto simp: map_of_eq_None_iff)
    with Cons True kv show ?thesis by simp
  next
    case False
    with Cons kv show ?thesis by simp
  qed
qed

lemma detect_leader_lookup:
  "map_of (detect_leader mx rows) t =
     (if 2 \<le> card (round_trip_mints mx rows t) then Some (round_trip_mints mx rows t) else None)"
proof -
  let ?susp = "kf_suspicious mx rows"
  have "map_of (detect_leader mx rows) t =
      (case map_of ?susp t of None \<Rightarrow> None
       | Some ts \<Rightarrow> if 2 \<le> card (set ts) then Some (set ts) else None)"
    unfolding detect_leader_def using suspicious_distinct by (rule map_of_select)
  also have "\<dots> = (if 2 \<le> card (set (dd_get ?susp t)) then Some (set (dd_get ?susp t)) else None)"
    by (simp add: dd_get_def split: option.splits)
  finally show ?thesis by (simp only: suspicious_set)
qed

lemma detect_leader_distinct: "distinct (map fst (detect_leader mx rows))"
proof -
  have "map fst (detect_leader mx rows) =
      map fst (filter (\<lambda>(addr, tokens). 2 \<le> card (set tokens)) (kf_suspicious mx rows))"
    by (simp add: detect_leader_def comp_def split_def)
  then show ?thesis using suspicious_distinct [of mx rows] by (simp add: distinct_map_filter)
qed

text \<open>
  Claim C3. For every wallet and token, the number of times \<^verbatim>\<open>detect_leader\<close> records the
  token against the wallet is the number of the wallet's buy rows of that token that have
  a sell of the same wallet and token \<open>k\<close> later with \<open>0 < k \<le> max_hold_time_sec\<close>: a buy
  is flagged exactly when such a sell exists, and once only. A wallet is a key of the
  returned dictionary exactly when it shows the round trip on at least 2 distinct token
  mints, and its value is the set of those mints.
\<close>

theorem kill_follow_round_trip:
  "count_list (dd_get (kf_suspicious mx rows) t) m =
     length (filter (\<lambda>b. row_trader b = t \<and> row_mint b = m \<and> kf_flagged mx rows b) rows)
   \<and> map_of (detect_leader mx rows) t =
       (if 2 \<le> card (round_trip_mints mx rows t) then Some (round_trip_mints mx rows t)
        else None)
   \<and> distinct (map fst (detect_leader mx rows))"
  using suspicious_count detect_leader_lookup detect_leader_distinct by blast

theorem kill_follow_round_trip_witness:
  "count_list (dd_get (kf_suspicious 30 sample_rows) ''X'') ''MintY'' = 1
   \<and> map_of (detect_leader 30 sample_rows) ''X'' = None
   \<and> count_list (dd_get (kf_suspicious 30 sample_rows) ''Z'') ''Mint1'' = 1
   \<and> count_list (dd_get (kf_suspicious 30 sample_rows) ''Z'') ''Mint3'' = 0
   \<and> map_of (detect_leader 30 sample_rows) ''Z'' = Some {''Mint1'', ''Mint2''}"
  using kill_follow_round_trip [of 30 sample_rows "''X''" "''MintY''"]
    kill_follow_round_trip [of 30 sample_rows "''Z''" "''Mint1''"]
    kill_follow_round_trip [of 30 sample_rows "''Z''" "''Mint3''"]
  by (simp add: sample_rows_def round_trip_mints_def kf_flagged_def row_simps seconds_def
      card_insert_if)


section \<open>Properties of the sequence detector\<close>


lemmas se_simps = se_ts_def se_trader_def se_amount_def

lemma set_entries_dd_append:
  "set (entries (dd_append k v d)) = insert (k, v) (set (entries d))"
  by (induction k v d rule: dd_append.induct) (auto simp: entries_def)

lemma entries_Nil: "entries [] = []"
  by (simp add: entries_def)

lemma group_by_mint_get:
  "dd_get (group_by_mint rows mc) m =
     dd_get mc m @ map (\<lambda>r. (fst r, fst (snd (snd r)), snd (snd (snd r))))
       (filter (\<lambda>r. fst (snd r) = m) rows)"
  by (induction rows mc rule: group_by_mint.induct) (auto simp: dd_get_dd_append)

lemma group_by_mint_distinct:
  "distinct (map fst mc) \<Longrightarrow> distinct (map fst (group_by_mint rows mc))"
  by (induction rows mc rule: group_by_mint.induct) (auto simp: distinct_dd_append)

lemma grow_cluster_eq:
  "grow_cluster w ts1 a1 rest cluster =
     cluster @ filter (\<lambda>x. se_amount x \<noteq> a1)
                 (takeWhile (\<lambda>x. se_ts x - ts1 \<le> seconds w) rest)"
proof (induction rest arbitrary: cluster)
  case Nil
  then show ?case by simp
next
  case (Cons e rest)
  obtain ts2 t2 a2 where e: "e = (ts2, t2, a2)" by (cases e)
  show ?case
  proof (cases "a2 = a1")
    case True
    then show ?thesis by (simp add: e Cons.IH se_simps)
  next
    case False
    then have "a1 \<noteq> a2" by simp
    with False show ?thesis by (simp add: e Cons.IH se_simps)
  qed
qed

lemma scan_seeds_entries:
  "set (entries (scan_seeds w mint evs ct)) =
     set (entries ct) \<union>
       (\<lambda>c. (sort (map se_trader c), mint, c)) ` {c \<in> set (clusters_of w evs). 3 \<le> length c}"
proof (induction evs arbitrary: ct)
  case Nil
  then show ?case by simp
next
  case (Cons e evs)
  obtain ts1 t1 a1 where e: "e = (ts1, t1, a1)" by (cases e)
  define c where "c = e # filter (\<lambda>x. se_amount x \<noteq> se_amount e)
                  (takeWhile (\<lambda>x. se_ts x - se_ts e \<le> seconds w) evs)"
  have g: "grow_cluster w ts1 a1 evs [(ts1, t1, a1)] = c"
    by (simp add: grow_cluster_eq e se_simps c_def)
  have cl: "clusters_of w (e # evs) = c # clusters_of w evs"
    by (simp add: c_def)
  have step: "scan_seeds w mint (e # evs) ct =
      scan_seeds w mint evs
        (if 3 \<le> length c then dd_append (sort (map se_trader c)) (mint, c) ct else ct)"
    unfolding e scan_seeds.simps g Let_def ..
  show ?case unfolding step cl Cons.IH
    by (auto simp: set_entries_dd_append)
qed

lemma scan_mint_clusters_entries:
  "set (entries (scan_mint_clusters w mc ct)) =
     set (entries ct) \<union>
       (\<Union>(mint, events) \<in> set mc.
          (\<lambda>c. (sort (map se_trader c), mint, c)) `
            {c \<in> set (clusters_of w (sort events)). 3 \<le> length c})"
proof (induction mc arbitrary: ct)
  case Nil
  then show ?case by simp
next
  case (Cons me mc)
  obtain mint events where me: "me = (mint, events)" by (cases me)
  show ?case by (simp add: me Cons.IH scan_seeds_entries Un_assoc)
qed

lemma sorted_takeWhile_filter:
  fixes evs :: "seq_event list"
  assumes "sorted (map se_ts evs)"
  shows "takeWhile (\<lambda>x. se_ts x - t \<le> c) evs = filter (\<lambda>x. se_ts x - t \<le> c) evs"
  using assms
proof (induction evs)
  case Nil
  then show ?case by simp
next
  case (Cons e evs)
  show ?case
  proof (cases "se_ts e - t \<le> c")
    case True
    with Cons show ?thesis by simp
  next
    case False
    have "\<forall>x \<in> set evs. \<not> se_ts x - t \<le> c"
    proof
      fix x assume "x \<in> set evs"
      with Cons.prems have "se_ts e \<le> se_ts x" by simp
      with False show "\<not> se_ts x - t \<le> c" by simp
    qed
    then have "filter (\<lambda>x. se_ts x - t \<le> c) evs = []" by (simp add: filter_empty_conv)
    with False show ?thesis by simp
  qed
qed

lemma sorted_events_ts:
  fixes evs :: "seq_event list"
  assumes "sorted evs"
  shows "sorted (map se_ts evs)"
  using assms
proof (induction evs)
  case Nil
  then show ?case by simp
next
  case (Cons e evs)
  have "\<forall>x \<in> set evs. se_ts e \<le> se_ts x"
  proof
    fix x assume "x \<in> set evs"
    with Cons.prems have "e \<le> x" by simp
    then show "se_ts e \<le> se_ts x" by (auto simp: less_eq_prod_def se_ts_def)
  qed
  with Cons show ?case by simp
qed

lemma clusters_of_nth:
  "clusters_of w evs =
     map (\<lambda>i. evs ! i # filter (\<lambda>x. se_amount x \<noteq> se_amount (evs ! i))
                  (takeWhile (\<lambda>x. se_ts x - se_ts (evs ! i) \<le> seconds w) (drop (Suc i) evs)))
       [0..<length evs]"
proof (induction evs)
  case Nil
  then show ?case by simp
next
  case (Cons e evs)
  have "[0..<length (e # evs)] = 0 # map Suc [0..<length evs]"
    by (simp add: upt_conv_Cons map_Suc_upt del: upt_Suc)
  then show ?case by (simp add: Cons.IH comp_def del: upt_Suc)
qed

lemma clusters_of_sorted:
  assumes "sorted evs"
  shows "clusters_of w evs = map (cluster_at w evs) [0..<length evs]"
proof -
  have "evs ! i # filter (\<lambda>x. se_amount x \<noteq> se_amount (evs ! i))
                  (takeWhile (\<lambda>x. se_ts x - se_ts (evs ! i) \<le> seconds w) (drop (Suc i) evs))
        = cluster_at w evs i" for i
  proof -
    have "sorted (map se_ts (drop (Suc i) evs))"
      using sorted_events_ts [OF assms] by (simp add: sorted_wrt_drop drop_map [symmetric] del: drop_map)
    then show ?thesis
      by (simp add: sorted_takeWhile_filter cluster_at_def conj_commute)
  qed
  then show ?thesis by (simp add: clusters_of_nth)
qed


lemma scan_seeds_distinct:
  "distinct (map fst ct) \<Longrightarrow> distinct (map fst (scan_seeds w mint evs ct))"
proof (induction evs arbitrary: ct)
  case Nil
  then show ?case by simp
next
  case (Cons e evs)
  obtain ts1 t1 a1 where e: "e = (ts1, t1, a1)" by (cases e)
  show ?case unfolding e scan_seeds.simps Let_def
    by (rule Cons.IH) (simp add: Cons.prems distinct_dd_append)
qed

lemma scan_mint_clusters_distinct:
  "distinct (map fst ct) \<Longrightarrow> distinct (map fst (scan_mint_clusters w mc ct))"
proof (induction mc arbitrary: ct)
  case Nil
  then show ?case by simp
next
  case (Cons me mc)
  obtain mint events where me: "me = (mint, events)" by (cases me)
  show ?case unfolding me scan_mint_clusters.simps
    by (rule Cons.IH) (simp add: Cons.prems scan_seeds_distinct)
qed

lemma find_clusters_distinct: "distinct (map fst (find_clusters rows w))"
  by (simp add: find_clusters_def scan_mint_clusters_distinct)

lemma grouped_events:
  "sort (dd_get (group_by_mint rows []) mint) = sorted_events rows mint"
  by (simp add: group_by_mint_get dd_get_Nil sorted_events_def)

lemma find_clusters_entries:
  "((key, mint, cluster) \<in> set (entries (find_clusters rows w))) =
     (cluster \<in> set (clusters_of w (sorted_events rows mint)) \<and> 3 \<le> length cluster
        \<and> key = sort (map se_trader cluster))"
proof -
  let ?mc = "group_by_mint rows []"
  have d: "distinct (map fst ?mc)" by (simp add: group_by_mint_distinct)
  have mem: "((key, mint, cluster) \<in> set (entries (find_clusters rows w))) =
      (\<exists>evs. (mint, evs) \<in> set ?mc \<and> cluster \<in> set (clusters_of w (sort evs))
          \<and> 3 \<le> length cluster \<and> key = sort (map se_trader cluster))"
    unfolding find_clusters_def scan_mint_clusters_entries entries_Nil by auto
  show ?thesis
  proof
    assume "(key, mint, cluster) \<in> set (entries (find_clusters rows w))"
    with mem obtain evs where evs: "(mint, evs) \<in> set ?mc"
      and c: "cluster \<in> set (clusters_of w (sort evs))" "3 \<le> length cluster"
        "key = sort (map se_trader cluster)"
      by blast
    from evs d have "map_of ?mc mint = Some evs" by simp
    then have "dd_get ?mc mint = evs" by (simp add: dd_get_def)
    then have "sort evs = sorted_events rows mint" using grouped_events [of rows mint] by simp
    with c show "cluster \<in> set (clusters_of w (sorted_events rows mint)) \<and> 3 \<le> length cluster
        \<and> key = sort (map se_trader cluster)" by simp
  next
    assume a: "cluster \<in> set (clusters_of w (sorted_events rows mint)) \<and> 3 \<le> length cluster
        \<and> key = sort (map se_trader cluster)"
    then have "clusters_of w (sort (dd_get ?mc mint)) \<noteq> []"
      using grouped_events [of rows mint] by auto
    then have "dd_get ?mc mint \<noteq> []" by auto
    then obtain evs where "map_of ?mc mint = Some evs" and "dd_get ?mc mint = evs"
      by (auto simp: dd_get_def split: option.splits)
    then have "(mint, evs) \<in> set ?mc" and "sort evs = sorted_events rows mint"
      using grouped_events [of rows mint] by (auto dest: map_of_SomeD)
    with a mem show "(key, mint, cluster) \<in> set (entries (find_clusters rows w))" by auto
  qed
qed

text \<open>
  Claim C7, amended. For each token, with its buy events sorted by time, the clusters that
  \<^verbatim>\<open>find_clusters\<close> retains are exactly the clusters seeded at the indices \<open>i\<close> that have at
  least 3 members, where the cluster seeded at \<open>i\<close> is the seed followed by exactly the
  later events whose timestamp is within the window of the seed's timestamp and whose
  amount differs from the seed's; each is filed under the sorted tuple of its members'
  wallets. The wallets of a cluster need not be distinct.
\<close>

theorem sequence_clusters:
  "((key, mint, cluster) \<in> set (entries (find_clusters rows w))) =
     (\<exists>i < length (sorted_events rows mint).
        cluster = cluster_at w (sorted_events rows mint) i \<and> 3 \<le> length cluster
        \<and> key = sort (map se_trader cluster))"
proof -
  have "sorted (sorted_events rows mint)" by (simp add: sorted_events_def)
  then have "clusters_of w (sorted_events rows mint) =
      map (cluster_at w (sorted_events rows mint)) [0..<length (sorted_events rows mint)]"
    by (rule clusters_of_sorted)
  then have "(cluster \<in> set (clusters_of w (sorted_events rows mint))) =
      (\<exists>i < length (sorted_events rows mint). cluster = cluster_at w (sorted_events rows mint) i)"
    by auto
  then show ?thesis unfolding find_clusters_entries by auto
qed

lemma sample_sorted_events:
  "sorted_events sample_seq_rows ''M'' =
     [(0, ''A'', 1), (1000000, ''B'', 2), (2000000, ''C'', 3), (3000000, ''D'', 1),
      (11000000, ''E'', 5)]"
  by code_simp

lemma sample_cluster_at:
  "cluster_at 10 [(0, ''A'', 1), (1000000, ''B'', 2), (2000000, ''C'', 3), (3000000, ''D'', 1),
      (11000000, ''E'', 5)] 0 = [(0, ''A'', 1), (1000000, ''B'', 2), (2000000, ''C'', 3)]"
  by code_simp

lemma sample_key:
  "sort (map se_trader [(0, ''A'', 1), (1000000, ''B'', 2), (2000000, ''C'', 3)]) =
     [''A'', ''B'', ''C'']"
  by code_simp

theorem sequence_clusters_witness:
  "([''A'', ''B'', ''C''], ''M'', [(0, ''A'', 1), (1000000, ''B'', 2), (2000000, ''C'', 3)])
     \<in> set (entries (find_clusters sample_seq_rows 10))"
proof -
  have "\<exists>i < length (sorted_events sample_seq_rows ''M'').
        [(0, ''A'', 1), (1000000, ''B'', 2), (2000000, ''C'', 3)] =
          cluster_at 10 (sorted_events sample_seq_rows ''M'') i
        \<and> 3 \<le> length [(0 :: int, ''A'', 1 :: int), (1000000, ''B'', 2), (2000000, ''C'', 3)]
        \<and> [''A'', ''B'', ''C''] =
            sort (map se_trader [(0, ''A'', 1), (1000000, ''B'', 2), (2000000, ''C'', 3)])"
    unfolding sample_sorted_events sample_key
    by (intro exI [of _ 0]) (simp add: sample_cluster_at)
  then show ?thesis
    using sequence_clusters [of "[''A'', ''B'', ''C'']" "''M''"
        "[(0, ''A'', 1), (1000000, ''B'', 2), (2000000, ''C'', 3)]" sample_seq_rows 10]
    by simp
qed

text \<open>
  One wallet buying a token three times with three amounts within two seconds makes a
  retained cluster of three members with a single wallet.
\<close>

theorem repeated_wallet_cluster_counterexample:
  "find_clusters [(0, ''M'', ''A'', 1), (1000000, ''M'', ''A'', 2), (2000000, ''M'', ''A'', 3)] 10 =
     [([''A'', ''A'', ''A''],
       [(''M'', [(0, ''A'', 1), (1000000, ''A'', 2), (2000000, ''A'', 3)])])]
   \<and> \<not> distinct (map se_trader [(0, ''A'', 1), (1000000, ''A'', 2), (2000000, ''A'', 3)])"
  by code_simp



lemma filter_entries_dd_append_other:
  "\<not> P (k, v) \<Longrightarrow> filter P (entries (dd_append k v d)) = filter P (entries d)"
  by (induction k v d rule: dd_append.induct) (auto simp: entries_def)

lemma filter_entries_dd_append_new:
  "P (k, v) \<Longrightarrow> filter P (entries d) = [] \<Longrightarrow> filter P (entries (dd_append k v d)) = [(k, v)]"
  by (induction k v d rule: dd_append.induct) (auto simp: entries_def)

lemma not_all_identical: "(1 < card (set seqs)) = (\<not> all_identical seqs)"
proof -
  have "(card (set seqs) \<le> Suc 0) = (\<forall>a \<in> set seqs. \<forall>b \<in> set seqs. a = b)"
    by (rule card_le_Suc0_iff_eq) simp
  then show ?thesis by (auto simp: all_identical_def)
qed

lemma most_common_first_ok:
  assumes "firsts \<noteq> []"
  shows "\<exists>w. most_common_first firsts = Inr w \<and> w \<in> set firsts \<and> is_most_common firsts w"
proof -
  from leader_of_votes [OF assms] obtain l where
    "max_by_votes (count_first_buyers firsts []) = Inr (l, int (count_list firsts l))"
    "l \<in> set firsts" "\<forall>c. count_list firsts c \<le> count_list firsts l"
    by blast
  then show ?thesis by (auto simp: most_common_first_def is_most_common_def)
qed

lemma candidates_dd_append_other:
  "participants ev \<noteq> combo \<Longrightarrow> candidates_for (dd_append w ev lc) combo = candidates_for lc combo"
  unfolding candidates_for_def by (rule filter_entries_dd_append_other) simp

lemma candidates_dd_append_new:
  "candidates_for lc (participants ev) = [] \<Longrightarrow>
     candidates_for (dd_append w ev lc) (participants ev) = [(w, ev)]"
  unfolding candidates_for_def by (rule filter_entries_dd_append_new) simp_all

lemma detect_step_skip:
  assumes "length mcs < 2 \<or> all_identical (seqs_of mcs)"
  shows "detect_following_patterns ((combo, mcs) # rest) lc = detect_following_patterns rest lc"
proof (cases "length mcs < 2")
  case True
  then show ?thesis by simp
next
  case False
  with assms have "all_identical (seqs_of mcs)" by simp
  then have c: "\<not> 1 < card (set (seqs_of mcs))"
    using not_all_identical [of "seqs_of mcs"] by blast
  show ?thesis
    unfolding detect_following_patterns.simps Let_def seqs_of_def [symmetric]
    using False c by simp
qed

lemma detect_step_add:
  assumes "2 \<le> length mcs" and "\<not> all_identical (seqs_of mcs)" and "\<forall>x \<in> set mcs. snd x \<noteq> []"
  shows "\<exists>w \<in> set (map hd (seqs_of mcs)). is_most_common (map hd (seqs_of mcs)) w
     \<and> detect_following_patterns ((combo, mcs) # rest) lc =
         detect_following_patterns rest
           (dd_append w \<lparr>mints = map fst mcs, participants = combo, sequences = seqs_of mcs\<rparr> lc)"
proof -
  have ne: "[] \<notin> set (seqs_of mcs)" using assms(3) by (auto simp: seqs_of_def)
  then have fp: "first_positions (seqs_of mcs) = Inr (map hd (seqs_of mcs))"
    by (simp add: first_positions_def)
  have "map hd (seqs_of mcs) \<noteq> []" using assms(1) by (auto simp: seqs_of_def)
  from most_common_first_ok [OF this] obtain w where
    w: "most_common_first (map hd (seqs_of mcs)) = Inr w" "w \<in> set (map hd (seqs_of mcs))"
      "is_most_common (map hd (seqs_of mcs)) w"
    by blast
  have c: "1 < card (set (seqs_of mcs))"
    using assms(2) not_all_identical [of "seqs_of mcs"] by blast
  have l: "\<not> length mcs < 2" using assms(1) by simp
  have "detect_following_patterns ((combo, mcs) # rest) lc =
         detect_following_patterns rest
           (dd_append w \<lparr>mints = map fst mcs, participants = combo, sequences = seqs_of mcs\<rparr> lc)"
    unfolding detect_following_patterns.simps Let_def seqs_of_def [symmetric]
    using l c fp w(1) by simp
  with w show ?thesis by blast
qed

lemma detect_invariant:
  assumes "distinct (map fst ct)" and "clusters_nonempty ct"
    and "\<forall>combo \<in> fst ` set ct. candidates_for lc combo = []"
  shows "\<exists>lc'. detect_following_patterns ct lc = Inr lc'
     \<and> (\<forall>combo. combo \<notin> fst ` set ct \<longrightarrow> candidates_for lc' combo = candidates_for lc combo)
     \<and> (\<forall>item \<in> set ct. single_candidate lc' (fst item) (snd item))"
  using assms
proof (induction ct arbitrary: lc)
  case Nil
  then show ?case by simp
next
  case (Cons item ct)
  obtain combo mcs where item: "item = (combo, mcs)" by (cases item)
  have d: "distinct (map fst ct)" and fresh: "combo \<notin> fst ` set ct"
    using Cons.prems(1) item by auto
  have ne: "clusters_nonempty ct" and ne0: "\<forall>x \<in> set mcs. snd x \<noteq> []"
    using Cons.prems(2) item by (auto simp: clusters_nonempty_def)
  have empty0: "candidates_for lc combo = []" using Cons.prems(3) item by simp
  show ?case
  proof (cases "2 \<le> length mcs \<and> \<not> all_identical (seqs_of mcs)")
    case False
    then have skip: "detect_following_patterns (item # ct) lc = detect_following_patterns ct lc"
      unfolding item by (intro detect_step_skip) auto
    have "\<forall>c \<in> fst ` set ct. candidates_for lc c = []" using Cons.prems(3) by simp
    from Cons.IH [OF d ne this] obtain lc' where
      r: "detect_following_patterns ct lc = Inr lc'"
      and o: "\<forall>c. c \<notin> fst ` set ct \<longrightarrow> candidates_for lc' c = candidates_for lc c"
      and s: "\<forall>it \<in> set ct. single_candidate lc' (fst it) (snd it)"
      by blast
    have "candidates_for lc' combo = []" using o fresh empty0 by simp
    then have "single_candidate lc' combo mcs" using False by (simp add: single_candidate_def)
    with r o s skip item show ?thesis by auto
  next
    case True
    let ?ev = "\<lparr>mints = map fst mcs, participants = combo, sequences = seqs_of mcs\<rparr>"
    from detect_step_add [of mcs combo ct lc] True ne0 obtain w where
      w: "w \<in> set (map hd (seqs_of mcs))" "is_most_common (map hd (seqs_of mcs)) w"
      and step: "detect_following_patterns (item # ct) lc =
          detect_following_patterns ct (dd_append w ?ev lc)"
      unfolding item by blast
    have other: "candidates_for (dd_append w ?ev lc) c = candidates_for lc c" if "c \<noteq> combo" for c
      using that candidates_dd_append_other [of ?ev c w lc] by simp
    have new: "candidates_for (dd_append w ?ev lc) combo = [(w, ?ev)]"
      using candidates_dd_append_new [of lc ?ev w] empty0 by simp
    have "\<forall>c \<in> fst ` set ct. candidates_for (dd_append w ?ev lc) c = []"
    proof
      fix c assume c: "c \<in> fst ` set ct"
      then have "c \<noteq> combo" using fresh by auto
      moreover have "c \<in> fst ` set (item # ct)" using c by simp
      then have "candidates_for lc c = []" using Cons.prems(3) by blast
      ultimately show "candidates_for (dd_append w ?ev lc) c = []"
        using other by simp
    qed
    from Cons.IH [OF d ne this] obtain lc' where
      r: "detect_following_patterns ct (dd_append w ?ev lc) = Inr lc'"
      and o: "\<forall>c. c \<notin> fst ` set ct \<longrightarrow>
                candidates_for lc' c = candidates_for (dd_append w ?ev lc) c"
      and s: "\<forall>it \<in> set ct. single_candidate lc' (fst it) (snd it)"
      by blast
    have "candidates_for lc' combo = [(w, ?ev)]" using o fresh new by simp
    then have "single_candidate lc' combo mcs"
      using True w unfolding single_candidate_def by auto
    moreover have "\<forall>c. c \<notin> fst ` set (item # ct) \<longrightarrow> candidates_for lc' c = candidates_for lc c"
      using o other item by auto
    ultimately show ?thesis using r s step item by auto
  qed
qed

lemma candidates_for_Nil: "candidates_for [] combo = []"
  by (simp add: candidates_for_def entries_def)

text \<open>
  Claim C8. On a tracker whose keys are distinct (it is a dictionary) and whose clusters are
  not empty, \<^verbatim>\<open>detect_following_patterns\<close> returns without raising, and for every
  participant key: when the key has at least 2 token-clusters whose wallet-order sequences
  are not all identical, the output holds exactly one candidate carrying that key, filed
  under a most common first-position wallet of the sequences, with the list of mints, the
  participants and the sequences as evidence; when the key has fewer than 2 clusters or
  its sequences are all identical, the output holds no candidate carrying it. A key that
  is not in the tracker has no candidate.
\<close>

theorem following_patterns:
  assumes "distinct (map fst ct)" and "clusters_nonempty ct"
  shows "\<exists>lc. detect_following_patterns ct [] = Inr lc
     \<and> (\<forall>item \<in> set ct. single_candidate lc (fst item) (snd item))
     \<and> (\<forall>combo. combo \<notin> fst ` set ct \<longrightarrow> candidates_for lc combo = [])"
proof -
  have "\<forall>combo \<in> fst ` set ct. candidates_for [] combo = []"
    by (simp add: candidates_for_Nil)
  from detect_invariant [OF assms this] show ?thesis
    by (auto simp: candidates_for_Nil)
qed


lemma entries_member:
  "(k, vs) \<in> set d \<Longrightarrow> v \<in> set vs \<Longrightarrow> (k, v) \<in> set (entries d)"
  by (force simp: entries_def)

lemma find_clusters_nonempty: "clusters_nonempty (find_clusters rows w)"
  unfolding clusters_nonempty_def
proof (intro ballI)
  fix item x
  assume i: "item \<in> set (find_clusters rows w)" and x: "x \<in> set (snd item)"
  then have "(fst item, fst x, snd x) \<in> set (entries (find_clusters rows w))"
    using entries_member [of "fst item" "snd item" "find_clusters rows w" x] by simp
  then have "3 \<le> length (snd x)"
    using find_clusters_entries [of "fst item" "fst x" "snd x" rows w] by blast
  then show "snd x \<noteq> []" by auto
qed

theorem following_patterns_witness:
  "\<exists>lc. detect_following_patterns sample_tracker [] = Inr lc
     \<and> candidates_for lc [''A'', ''B'', ''C''] =
         [(''A'', \<lparr>mints = [''M'', ''N'', ''O''], participants = [''A'', ''B'', ''C''],
                  sequences = [[''A'', ''B'', ''C''], [''B'', ''A'', ''C''],
                               [''A'', ''C'', ''B'']]\<rparr>)]
     \<and> candidates_for lc [''B'', ''C'', ''D''] = []"
proof -
  have d: "distinct (map fst sample_tracker)" by (simp add: sample_tracker_def)
  have ne: "clusters_nonempty sample_tracker"
    by (simp add: sample_tracker_def clusters_nonempty_def)
  from following_patterns [OF d ne] obtain lc where
    r: "detect_following_patterns sample_tracker [] = Inr lc"
    and s: "\<forall>item \<in> set sample_tracker. single_candidate lc (fst item) (snd item)"
    by blast
  from s have
    "single_candidate lc [''A'', ''B'', ''C'']
       [(''M'', [(0, ''A'', 1), (1000000, ''B'', 2), (2000000, ''C'', 3)]),
        (''N'', [(0, ''B'', 1), (1000000, ''A'', 2), (2000000, ''C'', 3)]),
        (''O'', [(0, ''A'', 1), (1000000, ''C'', 2), (2000000, ''B'', 3)])]"
    and "single_candidate lc [''B'', ''C'', ''D'']
       [(''M'', [(1000000, ''B'', 2), (2000000, ''C'', 3), (3000000, ''D'', 1)])]"
    by (simp_all add: sample_tracker_def)
  then have "candidates_for lc [''A'', ''B'', ''C''] =
         [(''A'', \<lparr>mints = [''M'', ''N'', ''O''], participants = [''A'', ''B'', ''C''],
                  sequences = [[''A'', ''B'', ''C''], [''B'', ''A'', ''C''],
                               [''A'', ''C'', ''B'']]\<rparr>)]"
    and "candidates_for lc [''B'', ''C'', ''D''] = []"
    by (auto simp: single_candidate_def seqs_of_def se_trader_def is_most_common_def
        all_identical_def)
  with r show ?thesis by blast
qed


end
